theory Spec2Isabelle
  imports Complex_Main "HOL-Library.Sublist" "HOL-Library.Multiset"
begin

section \<open>Python values\<close>

subsection \<open>Floats\<close>

text \<open>
  A Python float is an IEEE 754 binary64 value. A finite one is held as the rational
  number it denotes; the sign of zero is not tracked (Python's \<open>==\<close> does not see it,
  and no operation below does). Every arithmetic operation computes the exact rational
  result and rounds it with \<open>rnd\<close>: to the nearest binary64 value, ties to the even
  significand, with gradual underflow below \<open>2^-1022\<close> and infinity from \<open>2^1024\<close> on.
\<close>

datatype pyfloat = Fin rat | PInf | NInf | NaN

definition rhe :: "rat \<Rightarrow> int" where
  \<comment> \<open>round to the nearest integer, ties to the even one\<close>
  "rhe x = (let f = \<lfloor>x\<rfloor>; d = x - of_int f in
            if d < 1 / 2 then f
            else if 1 / 2 < d then f + 1
            else if even f then f else f + 1)"

fun bits :: "nat \<Rightarrow> nat" where
  \<comment> \<open>the number of binary digits of a natural number\<close>
  "bits n = (if n = 0 then 0 else Suc (bits (n div 2)))"

declare bits.simps [simp del]

definition expo :: "rat \<Rightarrow> int" where
  \<comment> \<open>for \<open>0 < x\<close>: the exponent \<open>e\<close> with \<open>2^e \<le> x < 2^(e+1)\<close>\<close>
  "expo x = (if 1 \<le> x then int (bits (nat \<lfloor>x\<rfloor>)) - 1
             else - int (bits (nat (\<lceil>1 / x\<rceil> - 1))))"

definition ulp :: "rat \<Rightarrow> rat" where
  \<comment> \<open>the spacing of binary64 values around \<open>x\<close>: 53 significant bits, exponent at least -1022\<close>
  "ulp x = 2 powi (max (expo \<bar>x\<bar>) (- 1022) - 52)"

definition rnd :: "rat \<Rightarrow> pyfloat" where
  "rnd x = (if x = 0 then Fin 0
            else let y = of_int (rhe (x / ulp x)) * ulp x in
                 if 2 ^ 1024 \<le> y then PInf
                 else if y \<le> - (2 ^ 1024) then NInf
                 else Fin y)"

fun fadd :: "pyfloat \<Rightarrow> pyfloat \<Rightarrow> pyfloat" where
  \<comment> \<open>float \<open>+\<close> float\<close>
  "fadd (Fin a) (Fin b) = rnd (a + b)"
| "fadd NaN _ = NaN"
| "fadd _ NaN = NaN"
| "fadd PInf NInf = NaN"
| "fadd NInf PInf = NaN"
| "fadd PInf _ = PInf"
| "fadd NInf _ = NInf"
| "fadd _ PInf = PInf"
| "fadd _ NInf = NInf"

fun fneg :: "pyfloat \<Rightarrow> pyfloat" where
  "fneg (Fin a) = Fin (- a)"
| "fneg PInf = NInf"
| "fneg NInf = PInf"
| "fneg NaN = NaN"

fun fsgn :: "pyfloat \<Rightarrow> int" where
  \<comment> \<open>-1, 0 or 1; only used on values other than NaN\<close>
  "fsgn (Fin a) = sgn \<lfloor>sgn a\<rfloor>"
| "fsgn PInf = 1"
| "fsgn NInf = - 1"
| "fsgn NaN = 0"

fun fmul :: "pyfloat \<Rightarrow> pyfloat \<Rightarrow> pyfloat" where
  \<comment> \<open>float \<open>*\<close> float: an overflow is an infinity, not an exception\<close>
  "fmul (Fin a) (Fin b) = rnd (a * b)"
| "fmul NaN _ = NaN"
| "fmul _ NaN = NaN"
| "fmul x y = (let s = fsgn x * fsgn y in
                if s = 0 then NaN else if 0 < s then PInf else NInf)"

fun fge :: "pyfloat \<Rightarrow> rat \<Rightarrow> bool" where
  \<comment> \<open>float \<open>>=\<close> number: false on NaN\<close>
  "fge (Fin a) c = (c \<le> a)"
| "fge PInf c = True"
| "fge NInf c = False"
| "fge NaN c = False"

fun flt :: "pyfloat \<Rightarrow> rat \<Rightarrow> bool" where
  \<comment> \<open>float \<open><\<close> number: false on NaN\<close>
  "flt (Fin a) c = (a < c)"
| "flt PInf c = False"
| "flt NInf c = True"
| "flt NaN c = False"

fun round2 :: "pyfloat \<Rightarrow> pyfloat" where
  \<comment> \<open>\<open>round(x, 2)\<close> on a float: the exact value is rounded to two decimals (ties to
      even) and the decimal result is read back as the nearest float; infinities and
      NaN round to themselves\<close>
  "round2 (Fin a) = rnd (of_int (rhe (a * 100)) / 100)"
| "round2 x = x"

datatype py_error =
  AttributeError | KeyError | IndexError | TypeError | ValueError | OverflowError
  | RuntimeError | TimeoutError

definition float_of_int :: "int \<Rightarrow> py_error + pyfloat" where
  \<comment> \<open>int to float, as in \<open>float(n)\<close> and in mixed arithmetic: OverflowError when the
      rounded value is out of range\<close>
  "float_of_int n = (case rnd (of_int n) of
                       Fin y \<Rightarrow> Inr (Fin y)
                     | _ \<Rightarrow> Inl OverflowError)"

definition true_div :: "int \<Rightarrow> int \<Rightarrow> py_error + pyfloat" where
  \<comment> \<open>int \<open>/\<close> int with a non-zero divisor: the correctly rounded quotient, OverflowError
      when it is out of range\<close>
  "true_div a b = (case rnd (of_int a / of_int b) of
                     Fin y \<Rightarrow> Inr (Fin y)
                   | _ \<Rightarrow> Inl OverflowError)"

section \<open>Helpers\<close>

definition calc_occupancy :: "int \<Rightarrow> int \<Rightarrow> py_error + pyfloat" where
  \<comment> \<open>\<open>round((sold / total) * 100, 2) if total else 0.0\<close>\<close>
  "calc_occupancy sold tot =
     (if tot \<noteq> 0
      then (case true_div sold tot of
              Inl e \<Rightarrow> Inl e
            | Inr q \<Rightarrow> Inr (round2 (fmul q (Fin 100))))
      else Inr (Fin 0))"

section \<open>Show records\<close>

text \<open>
  A show record is the dictionary the parser emits, with thirteen keys (\<open>row\<close>), to
  which the per-venue loop attaches four tags (\<open>tagged\<close>). The values the parser copies
  from the payload have the type \<open>'v\<close>: JSON values as they leave the parser, texts in a
  \<open>ShowRecord\<close>, the record of the specification, on which the deduplication and the
  summary work. The seat counts are Python integers. The gross is a float (it is the
  integer 0 for a show without categories, which Python's \<open>==\<close> and arithmetic do not tell
  from 0.0).
\<close>

record 'v row =
  movie :: 'v
  venue :: 'v
  address :: 'v
  language :: string
  dimension :: string
  chain :: 'v
  time :: 'v
  audi :: 'v
  session_id :: string
  totalSeats :: int
  available :: int
  sold :: int
  gross :: pyfloat

record 'v tagged = "'v row" +
  city :: 'v
  state :: 'v
  source :: string
  date :: string

type_synonym ShowRecord = "string tagged"

section \<open>Payloads\<close>

text \<open>
  The payload is the value \<open>r.json()\<close> returns: \<open>None\<close>, a boolean, an integer, a
  float, a text, a list or a dictionary with text keys (an association list, in the
  order of the document). Texts are lists of characters of code point below 256.
\<close>

datatype json =
  JNull | JBool bool | JInt int | JFloat pyfloat | JStr string
  | JArr "json list" | JObj "(string \<times> json) list"

text \<open>
  What the parser takes from its environment: the module constant \<open>DATE_CODE\<close>, computed
  from the clock when the script starts, and three conversions of the Python runtime
  whose text grammars are not modelled: \<open>str\<close> of a value that is not a text, and \<open>int\<close>
  and \<open>float\<close> of a text, \<open>None\<close> standing for their ValueError.
\<close>

record runtime =
  DATE_CODE :: string
  py_repr :: "json \<Rightarrow> string"
  int_of_str :: "string \<Rightarrow> int option"
  float_of_str :: "string \<Rightarrow> pyfloat option"

definition and_then :: "'e + 'a \<Rightarrow> ('a \<Rightarrow> 'e + 'b) \<Rightarrow> 'e + 'b" where
  \<comment> \<open>sequencing: an exception of the first statement leaves the function\<close>
  "and_then x f = (case x of Inl e \<Rightarrow> Inl e | Inr a \<Rightarrow> f a)"

definition dict_get :: "(string \<times> json) list \<Rightarrow> string \<Rightarrow> json \<Rightarrow> json" where
  \<comment> \<open>the value of a key of a dictionary, or the default when the key is missing\<close>
  "dict_get kvs k d = (case map_of kvs k of None \<Rightarrow> d | Some v \<Rightarrow> v)"

fun py_get :: "json \<Rightarrow> string \<Rightarrow> json \<Rightarrow> py_error + json" where
  \<comment> \<open>\<open>x.get(k, d)\<close>: only a dictionary has the method\<close>
  "py_get (JObj kvs) k d = Inr (dict_get kvs k d)"
| "py_get _ k d = Inl AttributeError"

fun truthy :: "json \<Rightarrow> bool" where
  "truthy JNull = False"
| "truthy (JBool b) = b"
| "truthy (JInt n) = (n \<noteq> 0)"
| "truthy (JFloat f) = (f \<noteq> Fin 0)"
| "truthy (JStr s) = (s \<noteq> [])"
| "truthy (JArr xs) = (xs \<noteq> [])"
| "truthy (JObj kvs) = (kvs \<noteq> [])"

fun py_index0 :: "json \<Rightarrow> py_error + json" where
  \<comment> \<open>\<open>x[0]\<close>: the first element of a list, the first character of a text; a dictionary
      has no key 0; other values are not subscriptable\<close>
  "py_index0 (JArr (x # xs)) = Inr x"
| "py_index0 (JArr []) = Inl IndexError"
| "py_index0 (JStr (c # cs)) = Inr (JStr [c])"
| "py_index0 (JStr []) = Inl IndexError"
| "py_index0 (JObj kvs) = Inl KeyError"
| "py_index0 _ = Inl TypeError"

fun py_iter :: "json \<Rightarrow> py_error + json list" where
  \<comment> \<open>what \<open>for x in v\<close> runs over: the elements of a list, the characters of a text,
      the keys of a dictionary; other values are not iterable\<close>
  "py_iter (JArr xs) = Inr xs"
| "py_iter (JStr s) = Inr (map (\<lambda>c. JStr [c]) s)"
| "py_iter (JObj kvs) = Inr (map (\<lambda>kv. JStr (fst kv)) kvs)"
| "py_iter _ = Inl TypeError"

definition is_space :: "char \<Rightarrow> bool" where
  \<comment> \<open>\<open>str.isspace\<close> below code point 256\<close>
  "is_space c \<longleftrightarrow> (of_char c :: nat) \<in> {9, 10, 11, 12, 13, 28, 29, 30, 31, 32, 133, 160}"

definition strip :: "string \<Rightarrow> string" where
  "strip s = rev (dropWhile is_space (rev (dropWhile is_space s)))"

fun py_strip :: "json \<Rightarrow> py_error + string" where
  \<comment> \<open>\<open>x.strip()\<close>: only a text has the method\<close>
  "py_strip (JStr s) = Inr (strip s)"
| "py_strip _ = Inl AttributeError"

fun py_str :: "runtime \<Rightarrow> json \<Rightarrow> string" where
  \<comment> \<open>\<open>str(x)\<close>\<close>
  "py_str env (JStr s) = s"
| "py_str env v = py_repr env v"

fun py_int :: "runtime \<Rightarrow> json \<Rightarrow> py_error + int" where
  \<comment> \<open>\<open>int(x)\<close>: a float is truncated towards zero\<close>
  "py_int env (JInt n) = Inr n"
| "py_int env (JBool b) = Inr (if b then 1 else 0)"
| "py_int env (JFloat (Fin q)) = Inr (if 0 \<le> q then \<lfloor>q\<rfloor> else \<lceil>q\<rceil>)"
| "py_int env (JFloat NaN) = Inl ValueError"
| "py_int env (JFloat _) = Inl OverflowError"
| "py_int env (JStr s) = (case int_of_str env s of None \<Rightarrow> Inl ValueError | Some n \<Rightarrow> Inr n)"
| "py_int env _ = Inl TypeError"

fun py_float :: "runtime \<Rightarrow> json \<Rightarrow> py_error + pyfloat" where
  \<comment> \<open>\<open>float(x)\<close>\<close>
  "py_float env (JInt n) = float_of_int n"
| "py_float env (JBool b) = Inr (Fin (if b then 1 else 0))"
| "py_float env (JFloat f) = Inr f"
| "py_float env (JStr s) =
     (case float_of_str env s of None \<Rightarrow> Inl ValueError | Some f \<Rightarrow> Inr f)"
| "py_float env _ = Inl TypeError"

section \<open>Parser\<close>

text \<open>
  \<open>parse_payload\<close>, from the innermost loop outwards. Each loop is a function of the
  list it runs over; a function that raises returns \<open>Inl\<close> of the exception.
\<close>

definition cat_values :: "runtime \<Rightarrow> json \<Rightarrow> py_error + (int \<times> int \<times> pyfloat)" where
  \<comment> \<open>\<open>seats\<close>, \<open>free\<close> and \<open>price\<close> of a category\<close>
  "cat_values env cat =
     and_then (py_get cat ''MaxSeats'' (JInt 0)) (\<lambda>a.
     and_then (py_int env a) (\<lambda>seats.
     and_then (py_get cat ''SeatsAvail'' (JInt 0)) (\<lambda>b.
     and_then (py_int env b) (\<lambda>free.
     and_then (py_get cat ''CurPrice'' (JInt 0)) (\<lambda>c.
     and_then (py_float env c) (\<lambda>price.
     Inr (seats, free, price)))))))"

definition cat_gross :: "int \<times> int \<times> pyfloat \<Rightarrow> py_error + pyfloat" where
  \<comment> \<open>\<open>(seats - free) * price\<close>: the integer is converted to a float first\<close>
  "cat_gross v = (case v of (seats, free, price) \<Rightarrow>
     and_then (float_of_int (seats - free)) (\<lambda>d. Inr (fmul d price)))"

fun cat_loop ::
  "runtime \<Rightarrow> int \<times> int \<times> int \<times> pyfloat \<Rightarrow> json list \<Rightarrow> py_error + (int \<times> int \<times> int \<times> pyfloat)"
where
  \<comment> \<open>\<open>for cat in ...\<close>, on the variables \<open>total\<close>, \<open>sold\<close>, \<open>avail\<close> and \<open>gross\<close>\<close>
  "cat_loop env acc [] = Inr acc"
| "cat_loop env acc (cat # cats) =
     (case acc of (tot, sld, avail, grs) \<Rightarrow>
        and_then (cat_values env cat) (\<lambda>v.
        and_then (cat_gross v) (\<lambda>g.
        (case v of (seats, free, price) \<Rightarrow>
           cat_loop env (tot + seats, sld + (seats - free), avail + free, fadd grs g) cats))))"

record show_context =
  \<comment> \<open>the variables of the enclosing loops that a row copies\<close>
  venue_name :: json
  venue_add :: json
  chain_name :: json
  title :: json
  dim :: string
  lang :: string

definition parse_show :: "runtime \<Rightarrow> show_context \<Rightarrow> json \<Rightarrow> py_error + json row option" where
  \<comment> \<open>the body of \<open>for sh in ...\<close>: \<open>None\<close> when the entry is skipped by \<open>continue\<close>\<close>
  "parse_show env cx sh =
     and_then (py_get sh ''ShowDateCode'' JNull) (\<lambda>dc.
     if dc \<noteq> JStr (DATE_CODE env) then Inr None
     else
       and_then (py_get sh ''Categories'' (JArr [])) (\<lambda>cs.
       and_then (py_iter cs) (\<lambda>cats.
       and_then (cat_loop env (0, 0, 0, Fin 0) cats) (\<lambda>acc.
       and_then (py_get sh ''ShowTime'' (JStr [])) (\<lambda>tm.
       and_then (py_get sh ''Attributes'' (JStr [])) (\<lambda>attr.
       and_then (py_get sh ''SessionId'' (JStr [])) (\<lambda>sid.
       (case acc of (tot, sld, avail, grs) \<Rightarrow>
          Inr (Some \<lparr>movie = title cx, venue = venue_name cx, address = venue_add cx,
                     language = lang cx, dimension = dim cx, chain = chain_name cx,
                     time = tm, audi = (if truthy attr then attr else JStr []),
                     session_id = py_str env sid,
                     totalSeats = tot, available = avail, sold = sld,
                     gross = round2 grs\<rparr>)))))))))"

fun show_loop :: "runtime \<Rightarrow> show_context \<Rightarrow> json list \<Rightarrow> py_error + json row list" where
  "show_loop env cx [] = Inr []"
| "show_loop env cx (sh # shs) =
     and_then (parse_show env cx sh) (\<lambda>r.
     and_then (show_loop env cx shs) (\<lambda>rs.
     Inr (case r of None \<Rightarrow> rs | Some x \<Rightarrow> x # rs)))"

definition parse_child :: "runtime \<Rightarrow> show_context \<Rightarrow> json \<Rightarrow> py_error + json row list" where
  \<comment> \<open>the body of \<open>for ch in ...\<close>; the context holds the venue and the title\<close>
  "parse_child env cx ch =
     and_then (py_get ch ''EventDimension'' (JStr [])) (\<lambda>d.
     and_then (py_strip d) (\<lambda>ds.
     and_then (py_get ch ''EventLanguage'' (JStr [])) (\<lambda>l.
     and_then (py_strip l) (\<lambda>ls.
     and_then (py_get ch ''ShowTimes'' (JArr [])) (\<lambda>st.
     and_then (py_iter st) (\<lambda>shs.
     show_loop env
       (cx\<lparr>dim := (if ds \<noteq> [] then ds else ''UNKNOWN''),
           lang := (if ls \<noteq> [] then ls else ''UNKNOWN'')\<rparr>) shs))))))"

fun child_loop :: "runtime \<Rightarrow> show_context \<Rightarrow> json list \<Rightarrow> py_error + json row list" where
  "child_loop env cx [] = Inr []"
| "child_loop env cx (ch # chs) =
     and_then (parse_child env cx ch) (\<lambda>rs.
     and_then (child_loop env cx chs) (\<lambda>rs'. Inr (rs @ rs')))"

definition parse_event :: "runtime \<Rightarrow> show_context \<Rightarrow> json \<Rightarrow> py_error + json row list" where
  \<comment> \<open>the body of \<open>for ev in ...\<close>; the context holds the venue\<close>
  "parse_event env cx ev =
     and_then (py_get ev ''EventTitle'' (JStr ''Unknown'')) (\<lambda>t.
     and_then (py_get ev ''ChildEvents'' (JArr [])) (\<lambda>ce.
     and_then (py_iter ce) (\<lambda>chs.
     child_loop env (cx\<lparr>title := t\<rparr>) chs)))"

fun event_loop :: "runtime \<Rightarrow> show_context \<Rightarrow> json list \<Rightarrow> py_error + json row list" where
  "event_loop env cx [] = Inr []"
| "event_loop env cx (ev # evs) =
     and_then (parse_event env cx ev) (\<lambda>rs.
     and_then (event_loop env cx evs) (\<lambda>rs'. Inr (rs @ rs')))"

definition parse_payload :: "runtime \<Rightarrow> json \<Rightarrow> py_error + json row list" where
  "parse_payload env data =
     and_then (py_get data ''ShowDetails'' (JArr [])) (\<lambda>sd.
     if \<not> truthy sd then Inr []
     else
       and_then (py_index0 sd) (\<lambda>sd0.
       and_then (py_get sd0 ''Venues'' (JObj [])) (\<lambda>vn.
       and_then (py_get vn ''VenueName'' (JStr [])) (\<lambda>name.
       and_then (py_get vn ''VenueAdd'' (JStr [])) (\<lambda>add.
       and_then (py_get vn ''VenueCompName'' (JStr ''Unknown'')) (\<lambda>comp.
       and_then (py_get sd0 ''Event'' (JArr [])) (\<lambda>es.
       and_then (py_iter es) (\<lambda>evs.
       event_loop env
         \<lparr>venue_name = name, venue_add = add, chain_name = comp,
          title = JNull, dim = [], lang = []\<rparr> evs))))))))"

section \<open>The per-venue step\<close>

text \<open>
  The \<open>try\<close> block of the main loop, from the result of the fetch on: the rows are
  parsed and tagged with the venue's city and state, the source and the date; any
  exception ends in the \<open>except\<close> branch, where the identity is reset and the failure is
  logged against the venue.
\<close>

fun tag_rows :: "runtime \<Rightarrow> json \<Rightarrow> json row list \<Rightarrow> py_error + json tagged list" where
  "tag_rows env meta [] = Inr []"
| "tag_rows env meta (r # rs) =
     and_then (py_get meta ''City'' (JStr ''Unknown'')) (\<lambda>c.
     and_then (py_get meta ''State'' (JStr ''Unknown'')) (\<lambda>s.
     and_then (tag_rows env meta rs) (\<lambda>ts.
     Inr (row.extend r \<lparr>city = c, state = s, source = ''BMS'', date = DATE_CODE env\<rparr> # ts))))"

datatype venue_outcome = Extended "json tagged list" | Failed py_error

definition venue_step :: "runtime \<Rightarrow> json \<Rightarrow> py_error + json \<Rightarrow> venue_outcome" where
  "venue_step env meta fetched =
     (case and_then fetched (\<lambda>raw.
           and_then (parse_payload env raw) (\<lambda>rows. tag_rows env meta rows)) of
        Inl e \<Rightarrow> Failed e
      | Inr rows \<Rightarrow> Extended rows)"

section \<open>Deduplication\<close>

type_synonym dedupe_key = "string \<times> string \<times> string \<times> string"

definition key :: "ShowRecord \<Rightarrow> dedupe_key" where
  "key r = (venue r, time r, session_id r, audi r)"

text \<open>The loop of \<open>dedupe\<close>, with its two local variables \<open>seen\<close> and \<open>out\<close>.\<close>

fun dedupe_loop :: "dedupe_key set \<Rightarrow> ShowRecord list \<Rightarrow> ShowRecord list \<Rightarrow> ShowRecord list" where
  "dedupe_loop seen out [] = out"
| "dedupe_loop seen out (r # rows) =
     (if key r \<in> seen then dedupe_loop seen out rows
      else dedupe_loop (insert (key r) seen) (out @ [r]) rows)"

definition dedupe :: "ShowRecord list \<Rightarrow> ShowRecord list" where
  "dedupe rows = dedupe_loop {} [] rows"

definition first_at :: "ShowRecord list \<Rightarrow> nat \<Rightarrow> bool" where
  \<comment> \<open>position \<open>i\<close> of \<open>rows\<close> holds a key that no earlier position holds\<close>
  "first_at rows i \<longleftrightarrow> key (rows ! i) \<notin> key ` set (take i rows)"

section \<open>Summary\<close>

text \<open>
  The summary is built in the main block of the script. A Python dictionary is an
  association list in insertion order (the order the final arrays are written in); a
  Python set is a set. The accumulating dictionaries of \<open>summary\<close> have the fields
  \<open>b_...\<close>: the same seven for a movie and for each of its city, language and format
  entries, a movie having its set of cities and its three sub-dictionaries in addition.
  The dictionaries of \<open>final_summary\<close> have the fields \<open>f_...\<close>.
\<close>

record bucket =
  b_venues :: "string set"
  b_shows :: int
  b_gross :: pyfloat
  b_sold :: int
  b_totalSeats :: int
  b_fastfilling :: int
  b_housefull :: int

record movie_acc = bucket +
  b_cities :: "string set"
  details :: "((string \<times> string) \<times> bucket) list"
  Language_details :: "(string \<times> bucket) list"
  Format_details :: "(string \<times> bucket) list"

type_synonym summary = "(string \<times> movie_acc) list"

definition new_bucket :: bucket where
  "new_bucket = \<lparr>b_venues = {}, b_shows = 0, b_gross = Fin 0, b_sold = 0, b_totalSeats = 0,
                  b_fastfilling = 0, b_housefull = 0\<rparr>"

definition new_movie :: movie_acc where
  "new_movie = \<lparr>b_venues = {}, b_shows = 0, b_gross = Fin 0, b_sold = 0, b_totalSeats = 0,
                 b_fastfilling = 0, b_housefull = 0,
                 b_cities = {}, details = [], Language_details = [], Format_details = []\<rparr>"

fun upd :: "'k \<Rightarrow> 'v \<Rightarrow> ('v \<Rightarrow> 'v) \<Rightarrow> ('k \<times> 'v) list \<Rightarrow> ('k \<times> 'v) list" where
  \<comment> \<open>\<open>if k not in d: d[k] = init\<close>, then the in-place update \<open>f\<close> of \<open>d[k]\<close>\<close>
  "upd k init f [] = [(k, f init)]"
| "upd k init f ((k', v) # kvs) =
     (if k = k' then (k', f v) # kvs else (k', v) # upd k init f kvs)"

definition get_or :: "'k \<Rightarrow> 'v \<Rightarrow> ('k \<times> 'v) list \<Rightarrow> 'v" where
  \<comment> \<open>the entry an update of key \<open>k\<close> starts from: \<open>d[k]\<close>, or \<open>init\<close> when \<open>k\<close> is not in \<open>d\<close>\<close>
  "get_or k init kvs = (case map_of kvs k of None \<Rightarrow> init | Some v \<Rightarrow> v)"

definition bump :: "ShowRecord \<Rightarrow> pyfloat \<Rightarrow> 'a bucket_scheme \<Rightarrow> 'a bucket_scheme" where
  \<comment> \<open>the seven updates every one of the four dictionaries receives for a record\<close>
  "bump r occ b =
     b\<lparr>b_venues := insert (venue r) (b_venues b),
       b_shows := b_shows b + 1,
       b_gross := fadd (b_gross b) (gross r),
       b_sold := b_sold b + sold r,
       b_totalSeats := b_totalSeats b + totalSeats r,
       b_housefull := (if fge occ 98 then b_housefull b + 1 else b_housefull b),
       b_fastfilling := (if fge occ 98 then b_fastfilling b
                         else if fge occ 50 then b_fastfilling b + 1
                         else b_fastfilling b)\<rparr>"

definition movie_step :: "ShowRecord \<Rightarrow> pyfloat \<Rightarrow> movie_acc \<Rightarrow> movie_acc" where
  "movie_step r occ m =
     (let m1 = (bump r occ m)\<lparr>b_cities := insert (city r) (b_cities m)\<rparr>;
          m2 = m1\<lparr>details := upd (city r, state r) new_bucket (bump r occ) (details m1)\<rparr>;
          m3 = m2\<lparr>Language_details :=
                     upd (language r) new_bucket (bump r occ) (Language_details m2)\<rparr>
      in m3\<lparr>Format_details :=
                upd (dimension r) new_bucket (bump r occ) (Format_details m3)\<rparr>)"

definition summary_step :: "summary \<Rightarrow> ShowRecord \<Rightarrow> py_error + summary" where
  \<comment> \<open>the body of \<open>for r in detailed\<close>\<close>
  "summary_step s r =
     (case calc_occupancy (sold r) (totalSeats r) of
        Inl e \<Rightarrow> Inl e
      | Inr occ \<Rightarrow> Inr (upd (movie r) new_movie (movie_step r occ) s))"

fun summarize :: "summary \<Rightarrow> ShowRecord list \<Rightarrow> py_error + summary" where
  "summarize s [] = Inr s"
| "summarize s (r # rs) =
     (case summary_step s r of Inl e \<Rightarrow> Inl e | Inr s' \<Rightarrow> summarize s' rs)"

record final_bucket =
  f_shows :: int
  f_gross :: pyfloat
  f_sold :: int
  f_totalSeats :: int
  f_venues :: nat
  f_fastfilling :: int
  f_housefull :: int
  f_occupancy :: pyfloat

record final_movie = final_bucket +
  f_cities :: nat
  City_details :: "((string \<times> string) \<times> final_bucket) list"
  f_Language_details :: "(string \<times> final_bucket) list"
  f_Format_details :: "(string \<times> final_bucket) list"

type_synonym final_summary = "(string \<times> final_movie) list"

definition final_bucket :: "bucket \<Rightarrow> py_error + final_bucket" where
  "final_bucket b =
     (case calc_occupancy (b_sold b) (b_totalSeats b) of
        Inl e \<Rightarrow> Inl e
      | Inr occ \<Rightarrow>
          Inr \<lparr>f_shows = b_shows b, f_gross = round2 (b_gross b), f_sold = b_sold b,
               f_totalSeats = b_totalSeats b, f_venues = card (b_venues b),
               f_fastfilling = b_fastfilling b, f_housefull = b_housefull b,
               f_occupancy = occ\<rparr>)"

fun final_entries :: "('k \<times> bucket) list \<Rightarrow> py_error + ('k \<times> final_bucket) list" where
  \<comment> \<open>one of the three loops over the values of a sub-dictionary\<close>
  "final_entries [] = Inr []"
| "final_entries ((k, b) # kbs) =
     (case final_bucket b of
        Inl e \<Rightarrow> Inl e
      | Inr fb \<Rightarrow> (case final_entries kbs of
                     Inl e \<Rightarrow> Inl e
                   | Inr fbs \<Rightarrow> Inr ((k, fb) # fbs)))"

definition final_movie :: "movie_acc \<Rightarrow> py_error + final_movie" where
  "final_movie m =
     (case calc_occupancy (b_sold m) (b_totalSeats m) of
        Inl e \<Rightarrow> Inl e
      | Inr occ \<Rightarrow>
     (case final_entries (details m) of
        Inl e \<Rightarrow> Inl e
      | Inr cs \<Rightarrow>
     (case final_entries (Language_details m) of
        Inl e \<Rightarrow> Inl e
      | Inr ls \<Rightarrow>
     (case final_entries (Format_details m) of
        Inl e \<Rightarrow> Inl e
      | Inr fs \<Rightarrow>
          Inr \<lparr>f_shows = b_shows m, f_gross = round2 (b_gross m), f_sold = b_sold m,
               f_totalSeats = b_totalSeats m, f_venues = card (b_venues m),
               f_fastfilling = b_fastfilling m, f_housefull = b_housefull m,
               f_occupancy = occ,
               f_cities = card (b_cities m), City_details = cs,
               f_Language_details = ls, f_Format_details = fs\<rparr>))))"

fun final_summary :: "summary \<Rightarrow> py_error + final_summary" where
  \<comment> \<open>\<open>for movie, m in summary.items()\<close>\<close>
  "final_summary [] = Inr []"
| "final_summary ((mv, m) # s) =
     (case final_movie m of
        Inl e \<Rightarrow> Inl e
      | Inr fm \<Rightarrow> (case final_summary s of
                     Inl e \<Rightarrow> Inl e
                   | Inr fs \<Rightarrow> Inr ((mv, fm) # fs)))"

definition aggregate :: "ShowRecord list \<Rightarrow> py_error + final_summary" where
  \<comment> \<open>the two loops of the main block, from an empty \<open>summary\<close>\<close>
  "aggregate rows =
     (case summarize [] rows of Inl e \<Rightarrow> Inl e | Inr s \<Rightarrow> final_summary s)"

section \<open>Sample data\<close>

text \<open>
  The concrete inputs of the examples below: a show of the movie \<open>Film\<close> at a given
  venue, city and session, with given seat counts and gross.
\<close>

definition sample :: "string \<Rightarrow> string \<Rightarrow> string \<Rightarrow> int \<Rightarrow> int \<Rightarrow> pyfloat \<Rightarrow> ShowRecord" where
  "sample v c sid t s g =
     \<lparr>movie = ''Film'', venue = v, address = ''Road'', language = ''Hindi'', dimension = ''2D'',
      chain = ''Chain'', time = ''10:00 AM'', audi = ''SCREEN 1'', session_id = sid,
      totalSeats = t, available = t - s, sold = s, gross = g,
      city = c, state = ''State'', source = ''BMS'', date = ''20250101''\<rparr>"

definition show_a :: ShowRecord where
  "show_a = sample ''PVR'' ''Pune'' ''S1'' 100 98 (Fin 19600)"

definition show_b :: ShowRecord where
  "show_b = sample ''INOX'' ''Delhi'' ''S2'' 100 50 (Fin 10000)"

section \<open>Properties, as predicates\<close>

definition conserved :: "movie_acc \<Rightarrow> bool" where
  \<comment> \<open>in \<open>summary\<close>: the shows, sold seats and total seats of a movie are the sums over
      its city entries, over its language entries and over its format entries\<close>
  "conserved m \<longleftrightarrow>
     (\<Sum>kb\<leftarrow>details m. b_shows (snd kb)) = b_shows m \<and>
     (\<Sum>kb\<leftarrow>details m. b_sold (snd kb)) = b_sold m \<and>
     (\<Sum>kb\<leftarrow>details m. b_totalSeats (snd kb)) = b_totalSeats m \<and>
     (\<Sum>kb\<leftarrow>Language_details m. b_shows (snd kb)) = b_shows m \<and>
     (\<Sum>kb\<leftarrow>Language_details m. b_sold (snd kb)) = b_sold m \<and>
     (\<Sum>kb\<leftarrow>Language_details m. b_totalSeats (snd kb)) = b_totalSeats m \<and>
     (\<Sum>kb\<leftarrow>Format_details m. b_shows (snd kb)) = b_shows m \<and>
     (\<Sum>kb\<leftarrow>Format_details m. b_sold (snd kb)) = b_sold m \<and>
     (\<Sum>kb\<leftarrow>Format_details m. b_totalSeats (snd kb)) = b_totalSeats m"

definition f_conserved :: "final_movie \<Rightarrow> bool" where
  \<comment> \<open>the same in \<open>final_summary\<close>\<close>
  "f_conserved m \<longleftrightarrow>
     (\<Sum>kb\<leftarrow>City_details m. f_shows (snd kb)) = f_shows m \<and>
     (\<Sum>kb\<leftarrow>City_details m. f_sold (snd kb)) = f_sold m \<and>
     (\<Sum>kb\<leftarrow>City_details m. f_totalSeats (snd kb)) = f_totalSeats m \<and>
     (\<Sum>kb\<leftarrow>f_Language_details m. f_shows (snd kb)) = f_shows m \<and>
     (\<Sum>kb\<leftarrow>f_Language_details m. f_sold (snd kb)) = f_sold m \<and>
     (\<Sum>kb\<leftarrow>f_Language_details m. f_totalSeats (snd kb)) = f_totalSeats m \<and>
     (\<Sum>kb\<leftarrow>f_Format_details m. f_shows (snd kb)) = f_shows m \<and>
     (\<Sum>kb\<leftarrow>f_Format_details m. f_sold (snd kb)) = f_sold m \<and>
     (\<Sum>kb\<leftarrow>f_Format_details m. f_totalSeats (snd kb)) = f_totalSeats m"

definition counted :: "pyfloat \<Rightarrow> 'a bucket_scheme \<Rightarrow> 'a bucket_scheme \<Rightarrow> bool" where
  \<comment> \<open>from \<open>b\<close> to \<open>b'\<close> a show of occupancy \<open>occ\<close> has been classified: \<open>housefull\<close> is
      one more when \<open>occ >= 98\<close> and unchanged otherwise, \<open>fastfilling\<close> is one more when
      \<open>50 <= occ < 98\<close> and unchanged otherwise, and not both have changed\<close>
  "counted occ b b' \<longleftrightarrow>
     b_housefull b' = b_housefull b + (if fge occ 98 then 1 else 0) \<and>
     b_fastfilling b' = b_fastfilling b + (if fge occ 50 \<and> flt occ 98 then 1 else 0) \<and>
     \<not> (b_housefull b' \<noteq> b_housefull b \<and> b_fastfilling b' \<noteq> b_fastfilling b)"

definition occupancy_law :: "'a final_bucket_scheme \<Rightarrow> bool" where
  \<comment> \<open>the occupancy of a final dictionary is \<open>calc_occupancy\<close> of its sold and total
      seats: 0.0 without seats, and between 0 and 100 when the sold seats are between 0 and
      the total\<close>
  "occupancy_law b \<longleftrightarrow>
     calc_occupancy (f_sold b) (f_totalSeats b) = Inr (f_occupancy b) \<and>
     (f_totalSeats b = 0 \<longrightarrow> f_occupancy b = Fin 0) \<and>
     (0 < f_totalSeats b \<and> 0 \<le> f_sold b \<and> f_sold b \<le> f_totalSeats b \<longrightarrow>
        (\<exists>y. f_occupancy b = Fin y \<and> 0 \<le> y \<and> y \<le> 100))"

definition show_oversold :: ShowRecord where
  \<comment> \<open>ten seats of which twenty are reported available, at a price of 200\<close>
  "show_oversold = sample ''PVR'' ''Pune'' ''S1'' 10 (- 10) (Fin (- 2000))"

fun first_only :: "json \<Rightarrow> json" where
  \<comment> \<open>a list cut after its first element\<close>
  "first_only (JArr (x # xs)) = JArr [x]"
| "first_only v = v"

definition truncate_details :: "json \<Rightarrow> json" where
  \<comment> \<open>the payload with its \<open>ShowDetails\<close> list cut after the first element\<close>
  "truncate_details data =
     (case data of
        JObj kvs \<Rightarrow>
          JObj (map (\<lambda>kv. if fst kv = ''ShowDetails'' then (fst kv, first_only (snd kv)) else kv)
                  kvs)
      | v \<Rightarrow> v)"

definition sample_runtime :: runtime where
  \<comment> \<open>the runtime of the examples, on the date 20250101; the examples carry their numbers
      as JSON numbers and their session identifiers as texts, and consult none of its
      three conversions\<close>
  "sample_runtime =
     \<lparr>DATE_CODE = ''20250101'', py_repr = (\<lambda>v. []), int_of_str = (\<lambda>s. None),
      float_of_str = (\<lambda>s. None)\<rparr>"

definition sample_entry :: "(string \<times> json) list \<Rightarrow> json" where
  \<comment> \<open>a show-time entry of the date 20250101, with further keys\<close>
  "sample_entry kvs =
     JObj ([(''ShowDateCode'', JStr ''20250101''), (''ShowTime'', JStr ''10:00 AM''),
            (''SessionId'', JStr ''S1'')] @ kvs)"

definition sample_details :: "(string \<times> json) list \<Rightarrow> json list \<Rightarrow> json" where
  \<comment> \<open>an element of \<open>ShowDetails\<close>: one venue, one movie, one child event with the given
      keys and show-time entries\<close>
  "sample_details child entries =
     JObj [(''Venues'', JObj [(''VenueName'', JStr ''PVR''), (''VenueAdd'', JStr ''Road''),
                              (''VenueCompName'', JStr ''Chain'')]),
           (''Event'', JArr [JObj [(''EventTitle'', JStr ''Film''),
              (''ChildEvents'', JArr [JObj (child @ [(''ShowTimes'', JArr entries)])])]])]"

definition sample_payload :: "(string \<times> json) list \<Rightarrow> json list \<Rightarrow> json" where
  "sample_payload child entries = JObj [(''ShowDetails'', JArr [sample_details child entries])]"

definition hindi_2d :: "(string \<times> json) list" where
  "hindi_2d = [(''EventDimension'', JStr ''2D''), (''EventLanguage'', JStr ''Hindi'')]"

definition category :: "json \<Rightarrow> json \<Rightarrow> json \<Rightarrow> json" where
  "category seats free price =
     JObj [(''MaxSeats'', seats), (''SeatsAvail'', free), (''CurPrice'', price)]"

definition sample_context :: show_context where
  "sample_context =
     \<lparr>venue_name = JStr ''PVR'', venue_add = JStr ''Road'', chain_name = JStr ''Chain'',
      title = JStr ''Film'', dim = ''2D'', lang = ''Hindi''\<rparr>"

text \<open>
  A payload whose present fields have the types the parser expects: dictionaries and
  lists where it descends, texts for the dimension and the language, and for the seat
  counts and the price of a category of a show of the target date, numbers (or texts
  the runtime converts) below \<open>2^1000\<close> in magnitude.
\<close>

fun seat_ok :: "runtime \<Rightarrow> json \<Rightarrow> bool" where
  "seat_ok env (JInt n) = (\<bar>n\<bar> < 2 ^ 1000)"
| "seat_ok env (JBool b) = True"
| "seat_ok env (JFloat (Fin q)) = (\<bar>q\<bar> < 2 ^ 1000)"
| "seat_ok env (JStr s) = (case int_of_str env s of None \<Rightarrow> False | Some n \<Rightarrow> \<bar>n\<bar> < 2 ^ 1000)"
| "seat_ok env _ = False"

fun price_ok :: "runtime \<Rightarrow> json \<Rightarrow> bool" where
  "price_ok env (JInt n) = (\<bar>n\<bar> < 2 ^ 1000)"
| "price_ok env (JBool b) = True"
| "price_ok env (JFloat f) = True"
| "price_ok env (JStr s) = (float_of_str env s \<noteq> None)"
| "price_ok env _ = False"

fun is_text :: "json \<Rightarrow> bool" where
  "is_text (JStr s) = True"
| "is_text _ = False"

fun is_dict :: "json \<Rightarrow> bool" where
  "is_dict (JObj kvs) = True"
| "is_dict _ = False"

fun list_of :: "(json \<Rightarrow> bool) \<Rightarrow> json \<Rightarrow> bool" where
  \<comment> \<open>a list whose elements all satisfy \<open>P\<close>\<close>
  "list_of P (JArr xs) = list_all P xs"
| "list_of P _ = False"

fun wf_cat :: "runtime \<Rightarrow> json \<Rightarrow> bool" where
  "wf_cat env (JObj kvs) =
     (seat_ok env (dict_get kvs ''MaxSeats'' (JInt 0)) \<and>
      seat_ok env (dict_get kvs ''SeatsAvail'' (JInt 0)) \<and>
      price_ok env (dict_get kvs ''CurPrice'' (JInt 0)))"
| "wf_cat env _ = False"

fun wf_show :: "runtime \<Rightarrow> json \<Rightarrow> bool" where
  "wf_show env (JObj kvs) =
     (if dict_get kvs ''ShowDateCode'' JNull = JStr (DATE_CODE env)
      then list_of (wf_cat env) (dict_get kvs ''Categories'' (JArr []))
      else True)"
| "wf_show env _ = False"

fun wf_child :: "runtime \<Rightarrow> json \<Rightarrow> bool" where
  "wf_child env (JObj kvs) =
     (is_text (dict_get kvs ''EventDimension'' (JStr [])) \<and>
      is_text (dict_get kvs ''EventLanguage'' (JStr [])) \<and>
      list_of (wf_show env) (dict_get kvs ''ShowTimes'' (JArr [])))"
| "wf_child env _ = False"

fun wf_event :: "runtime \<Rightarrow> json \<Rightarrow> bool" where
  "wf_event env (JObj kvs) = list_of (wf_child env) (dict_get kvs ''ChildEvents'' (JArr []))"
| "wf_event env _ = False"

fun wf_details :: "runtime \<Rightarrow> json \<Rightarrow> bool" where
  "wf_details env (JObj kvs) =
     (is_dict (dict_get kvs ''Venues'' (JObj [])) \<and>
      list_of (wf_event env) (dict_get kvs ''Event'' (JArr [])))"
| "wf_details env _ = False"

fun wf_payload :: "runtime \<Rightarrow> json \<Rightarrow> bool" where
  "wf_payload env (JObj kvs) =
     (case dict_get kvs ''ShowDetails'' (JArr []) of
        JArr (d # ds) \<Rightarrow> wf_details env d
      | sd \<Rightarrow> \<not> truthy sd)"
| "wf_payload env _ = False"

text \<open>
  The values of a category are defaulted: a key that the category does not have counts
  as zero seats, zero free seats, or the price 0.0.
\<close>

fun defaulted :: "json \<Rightarrow> int \<times> int \<times> pyfloat \<Rightarrow> bool" where
  "defaulted (JObj kvs) (seats, free, price) =
     ((map_of kvs ''MaxSeats'' = None \<longrightarrow> seats = 0) \<and>
      (map_of kvs ''SeatsAvail'' = None \<longrightarrow> free = 0) \<and>
      (map_of kvs ''CurPrice'' = None \<longrightarrow> price = Fin 0))"
| "defaulted _ _ = True"

section \<open>Summaries compared up to order\<close>

text \<open>
  Two final summaries are compared as dictionaries of movies, with the three arrays of a
  movie as sets of their entries; \<open>no_gross\<close> leaves the gross of an entry out of the
  comparison, and the view of a movie does not hold the movie's own gross.
\<close>

definition no_gross :: "final_bucket \<Rightarrow> final_bucket" where
  "no_gross fb = fb\<lparr>f_gross := Fin 0\<rparr>"

definition as_set :: "('k \<times> final_bucket) list \<Rightarrow> ('k \<times> final_bucket) set" where
  "as_set kfs = (\<lambda>kf. (fst kf, no_gross (snd kf))) ` set kfs"

type_synonym movie_view =
  "(int \<times> int \<times> int \<times> nat \<times> nat \<times> int \<times> int \<times> pyfloat)
   \<times> ((string \<times> string) \<times> final_bucket) set
   \<times> (string \<times> final_bucket) set \<times> (string \<times> final_bucket) set"

definition movie_view :: "final_movie \<Rightarrow> movie_view" where
  "movie_view fm =
     ((f_shows fm, f_sold fm, f_totalSeats fm, f_venues fm, f_cities fm, f_fastfilling fm,
       f_housefull fm, f_occupancy fm),
      as_set (City_details fm), as_set (f_Language_details fm), as_set (f_Format_details fm))"

definition summary_view :: "final_summary \<Rightarrow> (string \<times> movie_view) set" where
  "summary_view fs = (\<lambda>km. (fst km, movie_view (snd km))) ` set fs"

text \<open>
  What an accumulating dictionary holds apart from its gross (its tally), the update of
  a tally by a record, and dictionaries read as maps from their keys to tallies.
\<close>

type_synonym tally = "string set \<times> int \<times> int \<times> int \<times> int \<times> int"

definition tally_of :: "'a bucket_scheme \<Rightarrow> tally" where
  "tally_of b =
     (b_venues b, b_shows b, b_sold b, b_totalSeats b, b_fastfilling b, b_housefull b)"

definition tally_zero :: tally where
  "tally_zero = ({}, 0, 0, 0, 0, 0)"

definition contrib :: "ShowRecord \<Rightarrow> pyfloat \<Rightarrow> tally \<Rightarrow> tally" where
  "contrib r occ t = (case t of (vs, n, sd, tt, ff, hf) \<Rightarrow>
     (insert (venue r) vs, n + 1, sd + sold r, tt + totalSeats r,
      (if fge occ 98 then ff else if fge occ 50 then ff + 1 else ff),
      (if fge occ 98 then hf + 1 else hf)))"

definition dict_abs :: "('v \<Rightarrow> 'a) \<Rightarrow> ('k \<times> 'v) list \<Rightarrow> 'k \<Rightarrow> 'a option" where
  "dict_abs \<alpha> kvs k = map_option \<alpha> (map_of kvs k)"

definition astep :: "'k \<Rightarrow> 'a \<Rightarrow> ('a \<Rightarrow> 'a) \<Rightarrow> ('k \<Rightarrow> 'a option) \<Rightarrow> 'k \<Rightarrow> 'a option" where
  "astep k z g d = d(k \<mapsto> g (case d k of None \<Rightarrow> z | Some a \<Rightarrow> a))"

type_synonym movie_tally =
  "tally \<times> string set \<times> (string \<times> string \<Rightarrow> tally option)
   \<times> (string \<Rightarrow> tally option) \<times> (string \<Rightarrow> tally option)"

definition movie_tally :: "movie_acc \<Rightarrow> movie_tally" where
  "movie_tally m =
     (tally_of m, b_cities m, dict_abs tally_of (details m),
      dict_abs tally_of (Language_details m), dict_abs tally_of (Format_details m))"

definition movie_zero :: movie_tally where
  "movie_zero = (tally_zero, {}, Map.empty, Map.empty, Map.empty)"

definition mstep :: "ShowRecord \<Rightarrow> pyfloat \<Rightarrow> movie_tally \<Rightarrow> movie_tally" where
  "mstep r occ a = (case a of (t, cs, d1, d2, d3) \<Rightarrow>
     (contrib r occ t, insert (city r) cs,
      astep (city r, state r) tally_zero (contrib r occ) d1,
      astep (language r) tally_zero (contrib r occ) d2,
      astep (dimension r) tally_zero (contrib r occ) d3))"

definition sstep ::
  "ShowRecord \<Rightarrow> (string \<Rightarrow> movie_tally option) \<Rightarrow> string \<Rightarrow> movie_tally option" where
  "sstep r s = (case calc_occupancy (sold r) (totalSeats r) of
                  Inl e \<Rightarrow> s
                | Inr occ \<Rightarrow> astep (movie r) movie_zero (mstep r occ) s)"

definition distinct_movie :: "movie_acc \<Rightarrow> bool" where
  "distinct_movie m \<longleftrightarrow>
     distinct (map fst (details m)) \<and> distinct (map fst (Language_details m)) \<and>
     distinct (map fst (Format_details m))"

definition distinct_summary :: "summary \<Rightarrow> bool" where
  "distinct_summary s \<longleftrightarrow>
     distinct (map fst s) \<and> list_all (\<lambda>kv. distinct_movie (snd kv)) s"

text \<open>The common shape of the four loops of the final summary.\<close>

fun for_each :: "('v \<Rightarrow> py_error + 'w) \<Rightarrow> ('k \<times> 'v) list \<Rightarrow> py_error + ('k \<times> 'w) list" where
  "for_each f [] = Inr []"
| "for_each f ((k, v) # kvs) =
     (case f v of
        Inl e \<Rightarrow> Inl e
      | Inr w \<Rightarrow> (case for_each f kvs of
                    Inl e \<Rightarrow> Inl e
                  | Inr ws \<Rightarrow> Inr ((k, w) # ws)))"

text \<open>
  The three numbers of a category, as the claim names them: the capacity is \<open>int\<close> of
  \<open>MaxSeats\<close>, the available seats are \<open>int\<close> of \<open>SeatsAvail\<close> and the price is \<open>float\<close> of
  \<open>CurPrice\<close>, each read as the number 0 when the category does not have the key; and the
  product \<open>(capacity - available) * price\<close> of a category, a float.
\<close>

fun category_reads :: "runtime \<Rightarrow> json \<Rightarrow> int \<times> int \<times> pyfloat \<Rightarrow> bool" where
  "category_reads env (JObj ckvs) (seats, free, price) =
     (py_int env (case map_of ckvs ''MaxSeats'' of None \<Rightarrow> JInt 0 | Some x \<Rightarrow> x) = Inr seats \<and>
      py_int env (case map_of ckvs ''SeatsAvail'' of None \<Rightarrow> JInt 0 | Some x \<Rightarrow> x) = Inr free \<and>
      py_float env (case map_of ckvs ''CurPrice'' of None \<Rightarrow> JInt 0 | Some x \<Rightarrow> x) = Inr price)"
| "category_reads env _ _ = False"

fun category_product :: "int \<times> int \<times> pyfloat \<Rightarrow> pyfloat \<Rightarrow> bool" where
  "category_product (seats, free, price) x =
     (case rnd (of_int (seats - free)) of
        Fin d \<Rightarrow> x = fmul (Fin d) price
      | _ \<Rightarrow> False)"

section \<open>Properties of the floats\<close>

lemma bits_pos: "0 < n \<Longrightarrow> 0 < bits n"
  by (subst bits.simps) simp

lemma bits_bounds: "0 < n \<Longrightarrow> 2 ^ (bits n - 1) \<le> n \<and> n < 2 ^ bits n"
proof (induction n rule: less_induct)
  case (less n)
  show ?case
  proof (cases "n = 1")
    case True
    have "bits (Suc 0) = 1" by (simp add: bits.simps)
    with True show ?thesis by simp
  next
    case False
    with less.prems have h: "0 < n div 2" "n div 2 < n" by auto
    from less.IH [OF h(2) h(1)]
    have ih: "2 ^ (bits (n div 2) - 1) \<le> n div 2" "n div 2 < 2 ^ bits (n div 2)" by auto
    have b: "bits n = Suc (bits (n div 2))" using less.prems by (subst bits.simps) simp
    have p: "0 < bits (n div 2)" using h(1) by (rule bits_pos)
    then obtain k where k: "bits (n div 2) = Suc k" by (cases "bits (n div 2)") auto
    from ih k have "2 ^ k \<le> n div 2" "n div 2 < 2 ^ Suc k" by auto
    then have "2 * 2 ^ k \<le> n" "n < 2 * 2 ^ Suc k" by auto
    with b k show ?thesis by simp
  qed
qed

text \<open>\<open>expo\<close> is the binary exponent: the only \<open>e\<close> with \<open>2^e \<le> x < 2^(e+1)\<close>.\<close>

lemma expo_ge1:
  assumes "1 \<le> x"
  shows "2 powi (expo x) \<le> x \<and> x < 2 powi (expo x + 1)"
proof -
  let ?n = "nat \<lfloor>x\<rfloor>"
  have n: "0 < ?n" using assms by simp
  from bits_bounds [OF n] have lo: "2 ^ (bits ?n - 1) \<le> ?n" and hi: "?n < 2 ^ bits ?n" by auto
  have e: "expo x = int (bits ?n) - 1" using assms by (simp add: expo_def)
  have bp: "0 < bits ?n" using n by (rule bits_pos)
  have f0: "0 \<le> \<lfloor>x\<rfloor>" using assms by simp
  have nn: "(of_nat ?n :: rat) = of_int \<lfloor>x\<rfloor>" using f0 by (simp add: of_nat_nat)
  have fl: "of_nat ?n \<le> x" "x < of_nat ?n + 1"
    using floor_correct [of x] by (simp_all add: nn)
  have "(of_nat (2 ^ (bits ?n - 1)) :: rat) \<le> of_nat ?n" using lo by (simp only: of_nat_le_iff)
  then have "(of_nat (2 ^ (bits ?n - 1)) :: rat) \<le> x" using fl(1) by (rule order_trans)
  then have a: "(2::rat) ^ (bits ?n - 1) \<le> x" by simp
  from hi have "Suc ?n \<le> 2 ^ bits ?n" by (rule Suc_leI)
  then have "(of_nat (Suc ?n) :: rat) \<le> of_nat (2 ^ bits ?n)" by (simp only: of_nat_le_iff)
  then have "(of_nat ?n :: rat) + 1 \<le> 2 ^ bits ?n" by (simp add: add.commute)
  with fl(2) have b: "x < 2 ^ bits ?n" by (rule less_le_trans)
  have "2 powi (expo x) = (2::rat) ^ (bits ?n - 1)"
    using bp by (simp add: e power_int_def nat_diff_distrib')
  moreover have "2 powi (expo x + 1) = (2::rat) ^ bits ?n"
    by (simp add: e)
  ultimately show ?thesis using a b by simp
qed

lemma expo_lt1:
  assumes "0 < x" and "x < 1"
  shows "2 powi (expo x) \<le> x \<and> x < 2 powi (expo x + 1)"
proof -
  let ?m = "nat (\<lceil>1 / x\<rceil> - 1)"
  have y: "1 < 1 / x" using assms by simp
  have c: "2 \<le> \<lceil>1 / x\<rceil>" using assms by (simp add: le_ceiling_iff)
  then have m: "0 < ?m" by simp
  from bits_bounds [OF m] have lo: "2 ^ (bits ?m - 1) \<le> ?m" and hi: "?m < 2 ^ bits ?m" by auto
  have e: "expo x = - int (bits ?m)" using assms by (simp add: expo_def)
  have bp: "0 < bits ?m" using m by (rule bits_pos)
  have c0: "0 \<le> \<lceil>1 / x\<rceil> - 1" using c by linarith
  have m1: "(of_nat ?m :: rat) = of_int \<lceil>1 / x\<rceil> - 1"
    using of_nat_nat [OF c0, where ?'a = rat] by simp
  from hi have "Suc ?m \<le> 2 ^ bits ?m" by (rule Suc_leI)
  then have "(of_nat (Suc ?m) :: rat) \<le> of_nat (2 ^ bits ?m)" by (simp only: of_nat_le_iff)
  then have "(of_nat ?m :: rat) + 1 \<le> 2 ^ bits ?m" by (simp add: add.commute)
  then have "of_int \<lceil>1 / x\<rceil> \<le> (2::rat) ^ bits ?m" by (simp add: m1)
  with le_of_int_ceiling [of "1 / x"] have "1 / x \<le> 2 ^ bits ?m" by (rule order_trans)
  then have "1 \<le> 2 ^ bits ?m * x" using assms(1) by (simp add: pos_divide_le_eq)
  then have a: "1 / 2 ^ bits ?m \<le> x" by (simp add: pos_divide_le_eq mult.commute)
  have "(of_nat (2 ^ (bits ?m - 1)) :: rat) \<le> of_nat ?m" using lo by (simp only: of_nat_le_iff)
  then have "(2::rat) ^ (bits ?m - 1) \<le> of_int \<lceil>1 / x\<rceil> - 1" by (simp add: m1)
  also have "\<dots> < 1 / x" using ceiling_correct [of "1 / x"] by simp
  finally have "(2::rat) ^ (bits ?m - 1) < 1 / x" .
  then have "2 ^ (bits ?m - 1) * x < 1" using assms(1) by (simp add: pos_less_divide_eq)
  then have b: "x < 1 / 2 ^ (bits ?m - 1)" by (simp add: pos_less_divide_eq mult.commute)
  have "2 powi (expo x) = 1 / (2::rat) ^ bits ?m"
    by (simp add: e power_int_minus_divide)
  moreover have "2 powi (expo x + 1) = 1 / (2::rat) ^ (bits ?m - 1)"
  proof -
    have "expo x + 1 = - int (bits ?m - 1)" using bp by (simp add: e)
    then show ?thesis by (simp only: power_int_minus_divide power_int_of_nat)
  qed
  ultimately show ?thesis using a b by simp
qed

lemma expo_bounds: "0 < x \<Longrightarrow> 2 powi (expo x) \<le> x \<and> x < 2 powi (expo x + 1)"
  using expo_ge1 [of x] expo_lt1 [of x] by (cases "1 \<le> x") auto

lemma pow2_less_imp: "(2::rat) powi a < 2 powi b \<Longrightarrow> a < b"
proof (rule ccontr)
  assume l: "(2::rat) powi a < 2 powi b" and "\<not> a < b"
  then have "b \<le> a" by simp
  then have "(2::rat) powi b \<le> 2 powi a" by (rule power_int_increasing) simp
  with l show False by simp
qed

lemma expo_eq:
  assumes "2 powi k \<le> x" and "x < 2 powi (k + 1)"
  shows "expo x = k"
proof -
  have x: "0 < x" using assms(1) by (rule less_le_trans [rotated]) simp
  from expo_bounds [OF x] have e: "2 powi (expo x) \<le> x" "x < 2 powi (expo x + 1)" by auto
  have "(2::rat) powi k < 2 powi (expo x + 1)" using assms(1) e(2) by simp
  then have a: "k < expo x + 1" by (rule pow2_less_imp)
  have "(2::rat) powi (expo x) < 2 powi (k + 1)" using assms(2) e(1) by simp
  then have b: "expo x < k + 1" by (rule pow2_less_imp)
  from a b show ?thesis by simp
qed

text \<open>
  How a concrete value is rounded: with the binary exponent \<open>k\<close> of \<open>x\<close> given, the
  result is \<open>x\<close> rounded to a multiple of \<open>2^(k-52)\<close>.
\<close>

lemma rnd_normal:
  assumes "2 powi k \<le> \<bar>x\<bar>" and "\<bar>x\<bar> < 2 powi (k + 1)" and "- 1022 \<le> k"
    and "y = of_int (rhe (x / 2 powi (k - 52))) * 2 powi (k - 52)"
    and "y < 2 ^ 1024" and "- (2 ^ 1024) < y"
  shows "rnd x = Fin y"
proof -
  have e: "expo \<bar>x\<bar> = k" using assms(1,2) by (rule expo_eq)
  have "0 < \<bar>x\<bar>" using assms(1) by (rule less_le_trans [rotated]) simp
  then have nz: "x \<noteq> 0" by simp
  have u: "ulp x = 2 powi (k - 52)" using assms(3) by (simp add: ulp_def e)
  show ?thesis using nz assms(4,5,6) by (simp add: rnd_def u Let_def)
qed

lemma floor_rat_numeral [simp]:
  "\<lfloor>(numeral a :: rat) / numeral b\<rfloor> = numeral a div numeral b"
  "\<lfloor>- (numeral a :: rat) / numeral b\<rfloor> = - numeral a div numeral b"
  using floor_divide_of_int_eq [of "numeral a" "numeral b", where ?'a = rat]
    floor_divide_of_int_eq [of "- numeral a" "numeral b", where ?'a = rat]
  by simp_all

lemma rhe_le: "x \<le> of_int k \<Longrightarrow> rhe x \<le> k"
proof -
  assume a: "x \<le> of_int k"
  have f: "\<lfloor>x\<rfloor> \<le> k" using a by (simp add: floor_le_iff)
  show ?thesis
  proof (cases "\<lfloor>x\<rfloor> = k")
    case True
    then have "of_int k \<le> x" using of_int_floor_le by blast
    with a have "x = of_int k" by simp
    then show ?thesis by (simp add: rhe_def)
  next
    case False
    with f have "\<lfloor>x\<rfloor> + 1 \<le> k" by simp
    then show ?thesis by (auto simp: rhe_def Let_def)
  qed
qed

lemma rhe_ge: "of_int k \<le> x \<Longrightarrow> k \<le> rhe x"
proof -
  assume "of_int k \<le> x"
  then have "k \<le> \<lfloor>x\<rfloor>" by (simp add: le_floor_iff)
  then show ?thesis by (auto simp: rhe_def Let_def)
qed

lemma ulp_pos: "0 < ulp x"
  by (simp add: ulp_def)

text \<open>Rounding does not cross a multiple of the spacing.\<close>

lemma rnd_between:
  assumes "0 \<le> x" and "x \<le> of_int k * ulp x" and "of_int k * ulp x < 2 ^ 1024"
  shows "\<exists>y. rnd x = Fin y \<and> 0 \<le> y \<and> y \<le> of_int k * ulp x"
proof (cases "x = 0")
  case True
  with assms show ?thesis by (simp add: rnd_def)
next
  case False
  let ?u = "ulp x"
  let ?y = "of_int (rhe (x / ?u)) * ?u"
  have u: "0 < ?u" by (rule ulp_pos)
  have "x / ?u \<le> of_int k" using assms(2) u by (simp add: pos_divide_le_eq)
  then have "rhe (x / ?u) \<le> k" by (rule rhe_le)
  then have hi: "?y \<le> of_int k * ?u" using u by simp
  have "of_int 0 \<le> x / ?u" using assms(1) u by simp
  then have "0 \<le> rhe (x / ?u)" by (rule rhe_ge)
  then have lo: "0 \<le> ?y" using u by simp
  from hi assms(3) have "\<not> 2 ^ 1024 \<le> ?y" by simp
  moreover from lo have "\<not> ?y \<le> - (2 ^ 1024)" by simp
  ultimately have "rnd x = Fin ?y" using False by (simp add: rnd_def Let_def)
  with lo hi show ?thesis by simp
qed

lemma ulp_divides:
  assumes "0 < x" and "x < 2 ^ k" and "k \<le> 52"
  shows "\<exists>n. ulp x = 1 / 2 ^ n"
proof -
  have "2 powi (expo x) \<le> x" using expo_bounds [OF assms(1)] by simp
  with assms(2) have "(2::rat) powi (expo x) < 2 powi (int k)" by simp
  then have e: "expo x < int k" by (rule pow2_less_imp)
  let ?e = "max (expo \<bar>x\<bar>) (- 1022) - 52"
  have x: "\<bar>x\<bar> = x" using assms(1) by simp
  have neg: "?e < 0" using e assms(3) by (simp add: x)
  define n where "n = nat (- ?e)"
  have "?e = - int n" using neg by (simp add: n_def)
  then have "ulp x = 2 powi (- int n)" by (simp only: ulp_def)
  then have "ulp x = 1 / 2 ^ n"
    by (simp only: power_int_minus_divide power_int_of_nat)
  then show ?thesis by blast
qed

lemma rnd_unit_interval:
  assumes "0 \<le> x" and "x \<le> 1"
  shows "\<exists>y. rnd x = Fin y \<and> 0 \<le> y \<and> y \<le> 1"
proof (cases "x = 0")
  case True
  then show ?thesis by (simp add: rnd_def)
next
  case False
  with assms have "0 < x" and "x < 2 ^ 1" by simp_all
  then obtain n where n: "ulp x = 1 / 2 ^ n" using ulp_divides [of x 1] by auto
  have one: "of_int (2 ^ n) * ulp x = 1" by (simp add: n)
  from rnd_between [of x "2 ^ n"] assms show ?thesis by (simp only: one) simp
qed

lemma rnd_percent_interval:
  assumes "0 \<le> x" and "x \<le> 100"
  shows "\<exists>y. rnd x = Fin y \<and> 0 \<le> y \<and> y \<le> 100"
proof (cases "x = 0")
  case True
  then show ?thesis by (simp add: rnd_def)
next
  case False
  with assms have "0 < x" and "x < 2 ^ 7" by simp_all
  then obtain n where n: "ulp x = 1 / 2 ^ n" using ulp_divides [of x 7] by auto
  have c: "of_int (100 * 2 ^ n) * ulp x = 100" by (simp add: n)
  from rnd_between [of x "100 * 2 ^ n"] assms show ?thesis by (simp only: c) simp
qed

lemma rnd_not_NaN: "rnd x \<noteq> NaN"
  by (simp add: rnd_def Let_def)

lemma round2_not_NaN: "x \<noteq> NaN \<Longrightarrow> round2 x \<noteq> NaN"
  by (cases x) (simp_all add: rnd_not_NaN)

lemma not_fge_iff: "occ \<noteq> NaN \<Longrightarrow> \<not> fge occ c \<longleftrightarrow> flt occ c"
  by (cases occ) auto

section \<open>Properties of the occupancy\<close>

lemma calc_occupancy_bounds:
  assumes "0 < tot" and "0 \<le> sd" and "sd \<le> tot"
  shows "\<exists>y. calc_occupancy sd tot = Inr (Fin y) \<and> 0 \<le> y \<and> y \<le> 100"
proof -
  have "0 \<le> (of_int sd / of_int tot :: rat)" using assms by simp
  moreover have "(of_int sd / of_int tot :: rat) \<le> 1" using assms by simp
  ultimately obtain q where q: "rnd (of_int sd / of_int tot) = Fin q" "0 \<le> q" "q \<le> 1"
    using rnd_unit_interval by blast
  from q have "0 \<le> q * 100" "q * 100 \<le> 100" by simp_all
  then obtain z where z: "rnd (q * 100) = Fin z" "0 \<le> z" "z \<le> 100"
    using rnd_percent_interval by blast
  have "of_int 0 \<le> z * 100" using z by simp
  then have lo: "0 \<le> rhe (z * 100)" by (rule rhe_ge)
  have "z * 100 \<le> of_int 10000" using z by simp
  then have hi: "rhe (z * 100) \<le> 10000" by (rule rhe_le)
  have "0 \<le> (of_int (rhe (z * 100)) / 100 :: rat)" using lo by simp
  moreover have "(of_int (rhe (z * 100)) / 100 :: rat) \<le> 100" using hi by simp
  ultimately obtain v where v: "rnd (of_int (rhe (z * 100)) / 100) = Fin v" "0 \<le> v" "v \<le> 100"
    using rnd_percent_interval by blast
  show ?thesis using assms(1) q z v by (simp add: calc_occupancy_def true_div_def)
qed

lemma calc_occupancy_not_NaN: "calc_occupancy sd tot = Inr occ \<Longrightarrow> occ \<noteq> NaN"
proof -
  assume a: "calc_occupancy sd tot = Inr occ"
  show ?thesis
  proof (cases "tot = 0")
    case True
    with a show ?thesis by (auto simp: calc_occupancy_def)
  next
    case False
    with a obtain q where "true_div sd tot = Inr q" and occ: "occ = round2 (fmul q (Fin 100))"
      by (auto simp: calc_occupancy_def split: sum.splits)
    then obtain y where "q = Fin y"
      by (cases "rnd (of_int sd / of_int tot)") (auto simp: true_div_def)
    then have "fmul q (Fin 100) \<noteq> NaN" by (simp add: rnd_not_NaN)
    then show ?thesis unfolding occ by (rule round2_not_NaN)
  qed
qed

section \<open>Properties of the deduplication\<close>

lemma dedupe_loop_snoc:
  "dedupe_loop seen out (xs @ [r]) =
     (if key r \<in> seen \<union> key ` set xs then dedupe_loop seen out xs
      else dedupe_loop seen out xs @ [r])"
  by (induction xs arbitrary: seen out) auto

lemma dedupe_snoc:
  "dedupe (xs @ [r]) = (if key r \<in> key ` set xs then dedupe xs else dedupe xs @ [r])"
  by (simp add: dedupe_def dedupe_loop_snoc)

lemma dedupe_Nil: "dedupe [] = []"
  by (simp add: dedupe_def)

lemma dedupe_positions:
  "dedupe rows = map ((!) rows) (filter (first_at rows) [0..<length rows])"
proof (induction rows rule: rev_induct)
  case Nil
  show ?case by (simp add: dedupe_Nil)
next
  case (snoc r xs)
  have f: "filter (first_at (xs @ [r])) [0..<length xs] = filter (first_at xs) [0..<length xs]"
    by (rule filter_cong) (auto simp: first_at_def nth_append)
  have m: "map ((!) (xs @ [r])) (filter (first_at xs) [0..<length xs])
         = map ((!) xs) (filter (first_at xs) [0..<length xs])"
    by (rule map_cong) (auto simp: nth_append)
  show ?case
    by (simp add: dedupe_snoc snoc.IH f m) (simp add: first_at_def)
qed

lemma dedupe_subseq: "subseq (dedupe rows) rows"
proof (induction rows rule: rev_induct)
  case Nil
  show ?case by (simp add: dedupe_Nil)
next
  case (snoc r xs)
  then show ?case by (auto simp: dedupe_snoc intro: list_emb_prefix)
qed

lemma dedupe_keys: "key ` set (dedupe rows) = key ` set rows"
  by (induction rows rule: rev_induct) (auto simp: dedupe_Nil dedupe_snoc)

lemma dedupe_distinct: "distinct (map key (dedupe rows))"
  by (induction rows rule: rev_induct) (auto simp: dedupe_Nil dedupe_snoc dedupe_keys)

lemma key_fun: "key = (\<lambda>r. (venue r, time r, session_id r, audi r))"
  by (rule ext) (simp only: key_def)

lemma first_at_fun:
  "first_at rows =
   (\<lambda>i. (venue (rows ! i), time (rows ! i), session_id (rows ! i), audi (rows ! i))
          \<notin> (\<lambda>r. (venue r, time r, session_id r, audi r)) ` set (take i rows))"
  by (rule ext) (simp only: first_at_def key_fun)

lemma dedupe_example:
  "dedupe [show_a, show_b, sample ''PVR'' ''Mumbai'' ''S1'' 50 10 (Fin 5),
           show_a\<lparr>audi := ''SCREEN 2''\<rparr>] =
   [show_a, show_b, show_a\<lparr>audi := ''SCREEN 2''\<rparr>]"
  by (simp add: dedupe_def key_def show_a_def show_b_def sample_def)

text \<open>
  Claim C1. For every sequence of show records, \<open>dedupe\<close> returns the records standing
  at the positions whose composite key, the venue, the show time, the session identifier
  and the auditorium of the record, does not occur at an earlier position, in the order
  of the input: a subsequence of the input with one record, the first met, for each
  composite key of the input. \<open>dedupe\<close> reads its argument and writes its two local
  variables only, so it is the function of its input that is defined here.
\<close>

theorem dedupe_first_seen:
  "dedupe rows =
     map ((!) rows)
       (filter
          (\<lambda>i. (venue (rows ! i), time (rows ! i), session_id (rows ! i), audi (rows ! i))
                \<notin> (\<lambda>r. (venue r, time r, session_id r, audi r)) ` set (take i rows))
          [0..<length rows])
   \<and> subseq (dedupe rows) rows
   \<and> distinct (map (\<lambda>r. (venue r, time r, session_id r, audi r)) (dedupe rows))
   \<and> (\<lambda>r. (venue r, time r, session_id r, audi r)) ` set (dedupe rows) =
     (\<lambda>r. (venue r, time r, session_id r, audi r)) ` set rows"
  using dedupe_positions [of rows] dedupe_subseq [of rows] dedupe_distinct [of rows]
    dedupe_keys [of rows]
  unfolding first_at_fun key_fun by (intro conjI)

text \<open>
  Of four records, the third has the composite key of the first (and another city and
  other seat counts) and is dropped; the fourth differs from the first in the auditorium
  only and is kept.
\<close>

theorem dedupe_first_seen_witness:
  "dedupe [show_a, show_b, sample ''PVR'' ''Mumbai'' ''S1'' 50 10 (Fin 5),
           show_a\<lparr>audi := ''SCREEN 2''\<rparr>] =
   [show_a, show_b, show_a\<lparr>audi := ''SCREEN 2''\<rparr>]
   \<and> [show_a, show_b, show_a\<lparr>audi := ''SCREEN 2''\<rparr>] =
     map ((!) [show_a, show_b, sample ''PVR'' ''Mumbai'' ''S1'' 50 10 (Fin 5),
               show_a\<lparr>audi := ''SCREEN 2''\<rparr>]) [0, 1, 3]
   \<and> (venue show_a, time show_a, session_id show_a, audi show_a) =
     (''PVR'', ''10:00 AM'', ''S1'', ''SCREEN 1'')
   \<and> (venue show_b, time show_b, session_id show_b, audi show_b) =
     (''INOX'', ''10:00 AM'', ''S2'', ''SCREEN 1'')"
  using dedupe_first_seen
    [of "[show_a, show_b, sample ''PVR'' ''Mumbai'' ''S1'' 50 10 (Fin 5),
          show_a\<lparr>audi := ''SCREEN 2''\<rparr>]"]
  by (simp add: show_a_def show_b_def sample_def upt_rec [of 0] upt_rec [of 1] upt_rec [of 2]
      upt_rec [of 3] upt_rec [of 4])

lemma rnd_at:
  assumes "2 powi k \<le> \<bar>x\<bar>" and "\<bar>x\<bar> < 2 powi (k + 1)" and "- 1022 \<le> k"
  shows "rnd x = (let y = of_int (rhe (x / 2 powi (k - 52))) * 2 powi (k - 52) in
                  if 2 ^ 1024 \<le> y then PInf
                  else if y \<le> - (2 ^ 1024) then NInf
                  else Fin y)"
proof -
  have e: "expo \<bar>x\<bar> = k" using assms(1,2) by (rule expo_eq)
  have "0 < \<bar>x\<bar>" using assms(1) by (rule less_le_trans [rotated]) simp
  then have nz: "x \<noteq> 0" by simp
  have u: "ulp x = 2 powi (k - 52)" using assms(3) by (simp add: ulp_def e)
  show ?thesis using nz by (simp add: rnd_def u)
qed

lemmas rnd_eval =
  rnd_at [where k = "- 2"] rnd_at [where k = "- 1"] rnd_at [where k = 0]
  rnd_at [where k = 5] rnd_at [where k = 6] rnd_at [where k = 13] rnd_at [where k = 14]
  rhe_def Let_def

lemma occ_98_100: "calc_occupancy 98 100 = Inr (Fin 98)"
  by (simp add: calc_occupancy_def true_div_def rnd_eval)

lemma occ_50_100: "calc_occupancy 50 100 = Inr (Fin 50)"
  by (simp add: calc_occupancy_def true_div_def rnd_eval)

lemma occ_148_200: "calc_occupancy 148 200 = Inr (Fin 74)"
  by (simp add: calc_occupancy_def true_div_def rnd_eval)

lemma occ_40_100: "calc_occupancy 40 100 = Inr (Fin 40)"
  by (simp add: calc_occupancy_def true_div_def rnd_eval)

lemma occ_oversold: "calc_occupancy (- 10) 10 = Inr (Fin (- 100))"
  by (simp add: calc_occupancy_def true_div_def rnd_eval)

section \<open>Properties of the summary\<close>

lemmas summary_eval =
  aggregate_def summary_step_def movie_step_def bump_def new_movie_def new_bucket_def
  final_movie_def final_bucket_def sample_def

lemma aggregate_two_shows:
  "\<exists>fm. aggregate [show_a, show_b] = Inr [(''Film'', fm)]
     \<and> f_shows fm = 2 \<and> f_sold fm = 148 \<and> f_totalSeats fm = 200
     \<and> f_gross fm = Fin 29600 \<and> f_venues fm = 2 \<and> f_cities fm = 2
     \<and> f_housefull fm = 1 \<and> f_fastfilling fm = 1 \<and> f_occupancy fm = Fin 74
     \<and> map fst (City_details fm) = [(''Pune'', ''State''), (''Delhi'', ''State'')]
     \<and> map fst (f_Language_details fm) = [''Hindi'']
     \<and> map fst (f_Format_details fm) = [''2D'']"
  by (simp add: show_a_def show_b_def summary_eval occ_98_100 occ_50_100 occ_148_200 rnd_eval)

lemma sum_upd:
  fixes g :: "'v \<Rightarrow> int"
  assumes "\<And>v. g (f v) = g v + c" and "g init = 0"
  shows "(\<Sum>kv\<leftarrow>upd k init f kvs. g (snd kv)) = (\<Sum>kv\<leftarrow>kvs. g (snd kv)) + c"
  using assms by (induction kvs) auto

lemma upd_all:
  assumes "list_all (\<lambda>kv. P (snd kv)) kvs" and "\<And>v. P v \<Longrightarrow> P (f v)" and "P init"
  shows "list_all (\<lambda>kv. P (snd kv)) (upd k init f kvs)"
  using assms by (induction kvs) auto

lemma bump_shows: "b_shows (bump r occ b) = b_shows b + 1"
  and bump_sold: "b_sold (bump r occ b) = b_sold b + sold r"
  and bump_totalSeats: "b_totalSeats (bump r occ b) = b_totalSeats b + totalSeats r"
  by (simp_all add: bump_def)

lemma bump_more:
  "details (bump r occ m) = details m"
  "Language_details (bump r occ m) = Language_details m"
  "Format_details (bump r occ m) = Format_details m"
  "b_cities (bump r occ m) = b_cities m"
  by (simp_all add: bump_def)

lemma new_bucket_zero:
  "b_shows new_bucket = 0" "b_sold new_bucket = 0" "b_totalSeats new_bucket = 0"
  by (simp_all add: new_bucket_def)

lemma conserved_new: "conserved new_movie"
  by (simp add: conserved_def new_movie_def)

lemma conserved_step: "conserved m \<Longrightarrow> conserved (movie_step r occ m)"
  unfolding conserved_def movie_step_def Let_def
  by (simp add: sum_upd [where g = b_shows, OF bump_shows] sum_upd [where g = b_sold, OF bump_sold]
      sum_upd [where g = b_totalSeats, OF bump_totalSeats]
      new_bucket_zero bump_shows bump_sold bump_totalSeats bump_more)

lemma summary_step_conserved:
  "summary_step s r = Inr s' \<Longrightarrow> list_all (\<lambda>kv. conserved (snd kv)) s
     \<Longrightarrow> list_all (\<lambda>kv. conserved (snd kv)) s'"
  by (auto simp: summary_step_def split: sum.splits intro!: upd_all conserved_step conserved_new)

lemma summarize_conserved:
  "summarize s rs = Inr s' \<Longrightarrow> list_all (\<lambda>kv. conserved (snd kv)) s
     \<Longrightarrow> list_all (\<lambda>kv. conserved (snd kv)) s'"
proof (induction rs arbitrary: s)
  case Nil
  then show ?case by simp
next
  case (Cons r rs)
  then show ?case by (auto split: sum.splits dest: summary_step_conserved)
qed

lemma final_entries_map:
  "final_entries kbs = Inr fbs \<Longrightarrow>
     map (\<lambda>kf. f_shows (snd kf)) fbs = map (\<lambda>kb. b_shows (snd kb)) kbs \<and>
     map (\<lambda>kf. f_sold (snd kf)) fbs = map (\<lambda>kb. b_sold (snd kb)) kbs \<and>
     map (\<lambda>kf. f_totalSeats (snd kf)) fbs = map (\<lambda>kb. b_totalSeats (snd kb)) kbs"
  by (induction kbs arbitrary: fbs) (auto simp: final_bucket_def split: sum.splits)

lemma final_movie_conserved:
  "final_movie m = Inr fm \<Longrightarrow> conserved m \<Longrightarrow> f_conserved fm"
  by (auto simp: final_movie_def conserved_def f_conserved_def split: sum.splits
      dest!: final_entries_map)

lemma final_summary_conserved:
  "final_summary s = Inr fs \<Longrightarrow> list_all (\<lambda>kv. conserved (snd kv)) s
     \<Longrightarrow> list_all (\<lambda>kv. f_conserved (snd kv)) fs"
proof (induction s arbitrary: fs)
  case Nil
  then show ?case by simp
next
  case (Cons a s)
  obtain mv m where a: "a = (mv, m)" by (cases a)
  from Cons.prems(1) obtain fm fs' where fm: "final_movie m = Inr fm"
    and fs': "final_summary s = Inr fs'" and fs: "fs = (mv, fm) # fs'"
    by (auto simp: a split: sum.splits)
  from Cons.prems(2) have "conserved m" and "list_all (\<lambda>kv. conserved (snd kv)) s"
    by (simp_all add: a)
  with fm fs' Cons.IH show ?case
    by (simp add: fs final_movie_conserved)
qed

lemma aggregate_conserved:
  assumes "aggregate rows = Inr fs" and "(mv, fm) \<in> set fs"
  shows "f_conserved fm"
proof -
  from assms(1) obtain s where s: "summarize [] rows = Inr s" and f: "final_summary s = Inr fs"
    by (auto simp: aggregate_def split: sum.splits)
  from summarize_conserved [OF s] have "list_all (\<lambda>kv. conserved (snd kv)) s" by simp
  from final_summary_conserved [OF f this] assms(2) show ?thesis
    by (auto simp: list_all_iff)
qed

text \<open>
  Claim C2. For every sequence of records the aggregator accepts and every movie of the
  final summary, the movie's \<open>shows\<close>, \<open>sold\<close> and \<open>totalSeats\<close> are the sums of the same
  fields over its \<open>City_details\<close> entries, over its \<open>Language_details\<close> entries and over
  its \<open>Format_details\<close> entries.
\<close>

theorem bucket_sum_conservation:
  assumes "aggregate rows = Inr fs" and "(mv, fm) \<in> set fs"
  shows "(\<Sum>kb\<leftarrow>City_details fm. f_shows (snd kb)) = f_shows fm
       \<and> (\<Sum>kb\<leftarrow>City_details fm. f_sold (snd kb)) = f_sold fm
       \<and> (\<Sum>kb\<leftarrow>City_details fm. f_totalSeats (snd kb)) = f_totalSeats fm
       \<and> (\<Sum>kb\<leftarrow>f_Language_details fm. f_shows (snd kb)) = f_shows fm
       \<and> (\<Sum>kb\<leftarrow>f_Language_details fm. f_sold (snd kb)) = f_sold fm
       \<and> (\<Sum>kb\<leftarrow>f_Language_details fm. f_totalSeats (snd kb)) = f_totalSeats fm
       \<and> (\<Sum>kb\<leftarrow>f_Format_details fm. f_shows (snd kb)) = f_shows fm
       \<and> (\<Sum>kb\<leftarrow>f_Format_details fm. f_sold (snd kb)) = f_sold fm
       \<and> (\<Sum>kb\<leftarrow>f_Format_details fm. f_totalSeats (snd kb)) = f_totalSeats fm"
  using aggregate_conserved [OF assms] by (simp add: f_conserved_def)

theorem bucket_sum_conservation_witness:
  "\<exists>fm. aggregate [show_a, show_b] = Inr [(''Film'', fm)]
     \<and> f_shows fm = 2 \<and> f_sold fm = 148 \<and> f_totalSeats fm = 200
     \<and> (\<Sum>kb\<leftarrow>City_details fm. f_shows (snd kb)) = f_shows fm
     \<and> (\<Sum>kb\<leftarrow>City_details fm. f_sold (snd kb)) = f_sold fm
     \<and> (\<Sum>kb\<leftarrow>City_details fm. f_totalSeats (snd kb)) = f_totalSeats fm
     \<and> (\<Sum>kb\<leftarrow>f_Language_details fm. f_shows (snd kb)) = f_shows fm
     \<and> (\<Sum>kb\<leftarrow>f_Language_details fm. f_sold (snd kb)) = f_sold fm
     \<and> (\<Sum>kb\<leftarrow>f_Language_details fm. f_totalSeats (snd kb)) = f_totalSeats fm
     \<and> (\<Sum>kb\<leftarrow>f_Format_details fm. f_shows (snd kb)) = f_shows fm
     \<and> (\<Sum>kb\<leftarrow>f_Format_details fm. f_sold (snd kb)) = f_sold fm
     \<and> (\<Sum>kb\<leftarrow>f_Format_details fm. f_totalSeats (snd kb)) = f_totalSeats fm"
proof -
  from aggregate_two_shows obtain fm
    where a: "aggregate [show_a, show_b] = Inr [(''Film'', fm)]"
      and v: "f_shows fm = 2" "f_sold fm = 148" "f_totalSeats fm = 200"
    by blast
  have m: "(''Film'', fm) \<in> set [(''Film'', fm)]" by simp
  from bucket_sum_conservation [OF a m] a v show ?thesis by blast
qed

lemma get_or_upd: "get_or k init (upd k init f kvs) = f (get_or k init kvs)"
  by (induction kvs) (auto simp: get_or_def)

lemma bump_counted: "occ \<noteq> NaN \<Longrightarrow> counted occ b (bump r occ b)"
  by (cases occ) (auto simp: counted_def bump_def)

lemma movie_step_counters:
  "b_housefull (movie_step r occ m) = b_housefull (bump r occ m)"
  "b_fastfilling (movie_step r occ m) = b_fastfilling (bump r occ m)"
  by (simp_all add: movie_step_def Let_def)

lemma movie_step_subs:
  "details (movie_step r occ m) = upd (city r, state r) new_bucket (bump r occ) (details m)"
  "Language_details (movie_step r occ m) =
     upd (language r) new_bucket (bump r occ) (Language_details m)"
  "Format_details (movie_step r occ m) =
     upd (dimension r) new_bucket (bump r occ) (Format_details m)"
  by (simp_all add: movie_step_def Let_def bump_more)

lemma movie_step_counted: "occ \<noteq> NaN \<Longrightarrow> counted occ m (movie_step r occ m)"
  by (cases occ) (auto simp: counted_def movie_step_counters bump_def)

text \<open>
  Claim C3. For every record the aggregator processes, with \<open>occ\<close> the occupancy
  computed for the record, in each of the four dictionaries it updates (the movie, the
  movie's entry of the record's city and state, of its language and of its format):
  \<open>housefull\<close> is incremented if and only if \<open>occ >= 98\<close>, \<open>fastfilling\<close> if and only if
  \<open>50 <= occ < 98\<close>, and never both. Each dictionary is compared with what the step
  started from: the entry of \<open>summary\<close> before the step, or the fresh entry the step
  creates when there was none.
\<close>

theorem classification:
  assumes "summary_step s r = Inr s'"
  shows "\<exists>occ. calc_occupancy (sold r) (totalSeats r) = Inr occ
     \<and> counted occ (get_or (movie r) new_movie s) (get_or (movie r) new_movie s')
     \<and> counted occ
         (get_or (city r, state r) new_bucket (details (get_or (movie r) new_movie s)))
         (get_or (city r, state r) new_bucket (details (get_or (movie r) new_movie s')))
     \<and> counted occ
         (get_or (language r) new_bucket (Language_details (get_or (movie r) new_movie s)))
         (get_or (language r) new_bucket (Language_details (get_or (movie r) new_movie s')))
     \<and> counted occ
         (get_or (dimension r) new_bucket (Format_details (get_or (movie r) new_movie s)))
         (get_or (dimension r) new_bucket (Format_details (get_or (movie r) new_movie s')))"
proof -
  from assms obtain occ where occ: "calc_occupancy (sold r) (totalSeats r) = Inr occ"
    and s': "s' = upd (movie r) new_movie (movie_step r occ) s"
    by (auto simp: summary_step_def split: sum.splits)
  have n: "occ \<noteq> NaN" using occ by (rule calc_occupancy_not_NaN)
  let ?m = "get_or (movie r) new_movie s"
  have m': "get_or (movie r) new_movie s' = movie_step r occ ?m"
    by (simp add: s' get_or_upd)
  have "counted occ ?m (movie_step r occ ?m)" using n by (rule movie_step_counted)
  moreover have "counted occ (get_or (city r, state r) new_bucket (details ?m))
      (get_or (city r, state r) new_bucket (details (movie_step r occ ?m)))"
    using n by (simp add: movie_step_subs get_or_upd bump_counted)
  moreover have "counted occ (get_or (language r) new_bucket (Language_details ?m))
      (get_or (language r) new_bucket (Language_details (movie_step r occ ?m)))"
    using n by (simp add: movie_step_subs get_or_upd bump_counted)
  moreover have "counted occ (get_or (dimension r) new_bucket (Format_details ?m))
      (get_or (dimension r) new_bucket (Format_details (movie_step r occ ?m)))"
    using n by (simp add: movie_step_subs get_or_upd bump_counted)
  ultimately show ?thesis using occ by (simp add: m')
qed

lemma summary_step_show_a:
  "\<exists>s'. summary_step [] show_a = Inr s'
     \<and> b_housefull (get_or ''Film'' new_movie s') = 1
     \<and> b_fastfilling (get_or ''Film'' new_movie s') = 0"
  by (simp add: show_a_def summary_eval occ_98_100 get_or_def)

theorem classification_witness:
  "\<exists>s'. summary_step [] show_a = Inr s'
     \<and> calc_occupancy (sold show_a) (totalSeats show_a) = Inr (Fin 98)
     \<and> b_housefull (get_or ''Film'' new_movie s') = 1
     \<and> b_fastfilling (get_or ''Film'' new_movie s') = 0
     \<and> counted (Fin 98) (get_or (movie show_a) new_movie [])
          (get_or (movie show_a) new_movie s')
     \<and> counted (Fin 98)
         (get_or (city show_a, state show_a) new_bucket
            (details (get_or (movie show_a) new_movie [])))
         (get_or (city show_a, state show_a) new_bucket
            (details (get_or (movie show_a) new_movie s')))"
proof -
  from summary_step_show_a obtain s' where s: "summary_step [] show_a = Inr s'"
    and h: "b_housefull (get_or ''Film'' new_movie s') = 1"
      "b_fastfilling (get_or ''Film'' new_movie s') = 0"
    by blast
  have o: "calc_occupancy (sold show_a) (totalSeats show_a) = Inr (Fin 98)"
    by (simp add: show_a_def sample_def occ_98_100)
  from classification [OF s] o s h show ?thesis by auto
qed

lemma calc_occupancy_law:
  assumes "calc_occupancy sd tot = Inr occ"
  shows "(tot = 0 \<longrightarrow> occ = Fin 0)
       \<and> (0 < tot \<and> 0 \<le> sd \<and> sd \<le> tot \<longrightarrow> (\<exists>y. occ = Fin y \<and> 0 \<le> y \<and> y \<le> 100))"
proof -
  have "tot = 0 \<Longrightarrow> occ = Fin 0" using assms by (simp add: calc_occupancy_def)
  moreover have "\<exists>y. occ = Fin y \<and> 0 \<le> y \<and> y \<le> 100"
    if "0 < tot" "0 \<le> sd" "sd \<le> tot"
    using calc_occupancy_bounds [OF that] assms by auto
  ultimately show ?thesis by blast
qed

lemma final_bucket_law: "final_bucket b = Inr fb \<Longrightarrow> occupancy_law fb"
  using calc_occupancy_law [of "b_sold b" "b_totalSeats b"]
  by (auto simp: final_bucket_def occupancy_law_def split: sum.splits)

lemma final_entries_law:
  "final_entries kbs = Inr fbs \<Longrightarrow> list_all (\<lambda>kf. occupancy_law (snd kf)) fbs"
proof (induction kbs arbitrary: fbs)
  case Nil
  then show ?case by simp
next
  case (Cons a kbs)
  obtain k b where a: "a = (k, b)" by (cases a)
  from Cons.prems obtain fb fbs' where fb: "final_bucket b = Inr fb"
    and fbs': "final_entries kbs = Inr fbs'" and fbs: "fbs = (k, fb) # fbs'"
    by (auto simp: a split: sum.splits)
  from final_bucket_law [OF fb] Cons.IH [OF fbs'] show ?case by (simp add: fbs)
qed

lemma final_movie_law:
  assumes "final_movie m = Inr fm"
  shows "occupancy_law fm
       \<and> list_all (\<lambda>kf. occupancy_law (snd kf)) (City_details fm)
       \<and> list_all (\<lambda>kf. occupancy_law (snd kf)) (f_Language_details fm)
       \<and> list_all (\<lambda>kf. occupancy_law (snd kf)) (f_Format_details fm)"
proof -
  from assms obtain occ cs ls fs where
    occ: "calc_occupancy (b_sold m) (b_totalSeats m) = Inr occ"
    and cs: "final_entries (details m) = Inr cs"
    and ls: "final_entries (Language_details m) = Inr ls"
    and fs: "final_entries (Format_details m) = Inr fs"
    and fm: "f_sold fm = b_sold m" "f_totalSeats fm = b_totalSeats m" "f_occupancy fm = occ"
      "City_details fm = cs" "f_Language_details fm = ls" "f_Format_details fm = fs"
    by (auto simp: final_movie_def split: sum.splits)
  have "occupancy_law fm"
    using calc_occupancy_law [OF occ] occ by (simp add: occupancy_law_def fm)
  with final_entries_law [OF cs] final_entries_law [OF ls] final_entries_law [OF fs]
  show ?thesis by (simp add: fm)
qed

lemma final_summary_movie:
  "final_summary s = Inr fs \<Longrightarrow> (mv, fm) \<in> set fs
     \<Longrightarrow> \<exists>m. (mv, m) \<in> set s \<and> final_movie m = Inr fm"
proof (induction s arbitrary: fs)
  case Nil
  then show ?case by simp
next
  case (Cons a s)
  obtain mv' m' where a: "a = (mv', m')" by (cases a)
  from Cons.prems(1) obtain fm' fs' where fm': "final_movie m' = Inr fm'"
    and fs': "final_summary s = Inr fs'" and fs: "fs = (mv', fm') # fs'"
    by (auto simp: a split: sum.splits)
  show ?case
  proof (cases "(mv, fm) = (mv', fm')")
    case True
    with fm' show ?thesis by (auto simp: a)
  next
    case False
    with Cons.prems(2) have "(mv, fm) \<in> set fs'" by (auto simp: fs)
    from Cons.IH [OF fs' this] show ?thesis by auto
  qed
qed

text \<open>
  Claim C4, as amended. In every dictionary of the final summary (a movie, and each
  of its city, language and format entries) the occupancy is \<open>calc_occupancy\<close> of the
  dictionary's sold and total seats, that is \<open>round((sold / totalSeats) * 100, 2)\<close>; it is
  0.0 when \<open>totalSeats = 0\<close>; and it lies between 0 and 100 when \<open>totalSeats > 0\<close> and
  \<open>0 <= sold <= totalSeats\<close>.
\<close>

theorem occupancy_bounds:
  assumes "aggregate rows = Inr fs" and "(mv, fm) \<in> set fs"
  shows "occupancy_law fm
       \<and> (\<forall>kf \<in> set (City_details fm). occupancy_law (snd kf))
       \<and> (\<forall>kf \<in> set (f_Language_details fm). occupancy_law (snd kf))
       \<and> (\<forall>kf \<in> set (f_Format_details fm). occupancy_law (snd kf))"
proof -
  from assms(1) obtain s where f: "final_summary s = Inr fs"
    by (auto simp: aggregate_def split: sum.splits)
  from final_summary_movie [OF f assms(2)] obtain m where "final_movie m = Inr fm" by blast
  from final_movie_law [OF this] show ?thesis by (simp add: list_all_iff)
qed

theorem occupancy_bounds_witness:
  "\<exists>fm. aggregate [show_a, show_b] = Inr [(''Film'', fm)]
     \<and> f_sold fm = 148 \<and> f_totalSeats fm = 200 \<and> f_occupancy fm = Fin 74
     \<and> occupancy_law fm
     \<and> list_all (\<lambda>kf. occupancy_law (snd kf)) (City_details fm)
     \<and> list_all (\<lambda>kf. occupancy_law (snd kf)) (f_Language_details fm)
     \<and> list_all (\<lambda>kf. occupancy_law (snd kf)) (f_Format_details fm)"
proof -
  from aggregate_two_shows obtain fm
    where a: "aggregate [show_a, show_b] = Inr [(''Film'', fm)]"
      and v: "f_sold fm = 148" "f_totalSeats fm = 200" "f_occupancy fm = Fin 74"
    by blast
  have m: "(''Film'', fm) \<in> set [(''Film'', fm)]" by simp
  from occupancy_bounds [OF a m] a v show ?thesis by (auto simp: list_all_iff)
qed

text \<open>
  The claim as stated fails: a show that reports more available seats than it has is
  summarised with \<open>totalSeats = 10\<close> and an occupancy of -100.0.
\<close>

theorem occupancy_bounds_counterexample:
  "aggregate [show_oversold] =
     Inr [(''Film'',
       \<lparr>f_shows = 1, f_gross = Fin (- 2000), f_sold = - 10, f_totalSeats = 10, f_venues = 1,
        f_fastfilling = 0, f_housefull = 0, f_occupancy = Fin (- 100), f_cities = 1,
        City_details = [((''Pune'', ''State''),
          \<lparr>f_shows = 1, f_gross = Fin (- 2000), f_sold = - 10, f_totalSeats = 10,
           f_venues = 1, f_fastfilling = 0, f_housefull = 0, f_occupancy = Fin (- 100)\<rparr>)],
        f_Language_details = [(''Hindi'',
          \<lparr>f_shows = 1, f_gross = Fin (- 2000), f_sold = - 10, f_totalSeats = 10,
           f_venues = 1, f_fastfilling = 0, f_housefull = 0, f_occupancy = Fin (- 100)\<rparr>)],
        f_Format_details = [(''2D'',
          \<lparr>f_shows = 1, f_gross = Fin (- 2000), f_sold = - 10, f_totalSeats = 10,
           f_venues = 1, f_fastfilling = 0, f_housefull = 0, f_occupancy = Fin (- 100)\<rparr>)]\<rparr>)]
   \<and> \<not> fge (Fin (- 100)) 0"
  by (simp add: show_oversold_def summary_eval occ_oversold rnd_eval rnd_at [where k = 10])

text \<open>
  The order of the two float operations matters: for 23 sold seats of 160 the quotient
  is rounded before it is multiplied, and the occupancy is 14.37, where the exact value
  14.375 of \<open>100 * 23 / 160\<close>, a float, rounds to 14.38.
\<close>

lemma occupancy_23_160:
  "calc_occupancy 23 160 = Inr (Fin (8089590830664253 / 562949953421312))
   \<and> rnd (1437 / 100) = Fin (8089590830664253 / 562949953421312)
   \<and> map_sum id round2 (true_div (100 * 23) 160) = Inr (Fin (8095220330198467 / 562949953421312))
   \<and> rnd (1438 / 100) = Fin (8095220330198467 / 562949953421312)"
  by (simp add: calc_occupancy_def true_div_def rnd_at [where k = "- 3"] rnd_at [where k = 3]
      rhe_def Let_def)

section \<open>Properties of the parser\<close>

lemma and_then_simps [simp]:
  "and_then (Inl e) f = Inl e"
  "and_then (Inr a) f = f a"
  by (simp_all add: and_then_def)

lemma and_then_Inr:
  "and_then x f = Inr y \<longleftrightarrow> (\<exists>a. x = Inr a \<and> f a = Inr y)"
  by (cases x) simp_all

lemma py_get_Inr: "py_get v k d = Inr a \<Longrightarrow> \<exists>kvs. v = JObj kvs"
  by (cases v) simp_all

lemma map_of_truncate:
  "map_of (map (\<lambda>kv. if fst kv = ''ShowDetails'' then (fst kv, first_only (snd kv)) else kv)
             kvs) k =
   (if k = ''ShowDetails'' then map_option first_only (map_of kvs k) else map_of kvs k)"
  by (induction kvs) auto

lemma first_only_same [simp]:
  "truthy (first_only sd) = truthy sd"
  "py_index0 (first_only sd) = py_index0 sd"
  by (induction sd rule: first_only.induct) simp_all

text \<open>
  Claim C10. The parser reads the venue block and the event list from the first
  element of \<open>ShowDetails\<close> only: for every payload, parsing it and parsing it with
  \<open>ShowDetails\<close> cut after its first element give the same result, so that nothing of a
  later element is ever emitted.
\<close>

theorem parse_first_details_only:
  "parse_payload env (truncate_details data) = parse_payload env data"
proof (cases data)
  case (JObj kvs)
  then show ?thesis
    by (cases "map_of kvs ''ShowDetails''")
      (simp_all add: truncate_details_def parse_payload_def map_of_truncate dict_get_def)
qed (simp_all add: truncate_details_def)

lemmas parse_eval =
  parse_payload_def parse_event_def parse_child_def parse_show_def cat_values_def cat_gross_def
  float_of_int_def dict_get_def strip_def is_space_def
  sample_payload_def sample_details_def sample_entry_def sample_runtime_def hindi_2d_def
  category_def

lemma parse_scenario_a:
  "parse_payload sample_runtime
     (sample_payload hindi_2d
        [sample_entry [(''Attributes'', JStr ''SCREEN 1''),
                       (''Categories'', JArr [category (JInt 100) (JInt 2) (JInt 200)])]]) =
   Inr [\<lparr>movie = JStr ''Film'', venue = JStr ''PVR'', address = JStr ''Road'',
         language = ''Hindi'', dimension = ''2D'', chain = JStr ''Chain'',
         time = JStr ''10:00 AM'', audi = JStr ''SCREEN 1'', session_id = ''S1'',
         totalSeats = 100, available = 2, sold = 98, gross = Fin 19600\<rparr>]"
  by (simp add: parse_eval rnd_eval rnd_at [where k = 7])


lemma parse_null_dimension:
  "parse_payload sample_runtime
     (sample_payload [(''EventDimension'', JNull)] [sample_entry []]) = Inl AttributeError"
  by (simp add: parse_eval)







section \<open>Payloads the parser accepts\<close>

lemma rnd_abs_between:
  assumes "\<bar>x\<bar> \<le> of_int k * ulp x" and "of_int k * ulp x < 2 ^ 1024"
  shows "\<exists>y. rnd x = Fin y \<and> \<bar>y\<bar> \<le> of_int k * ulp x"
proof (cases "x = 0")
  case True
  with assms show ?thesis by (simp add: rnd_def)
next
  case False
  let ?u = "ulp x"
  let ?y = "of_int (rhe (x / ?u)) * ?u"
  have u: "0 < ?u" by (rule ulp_pos)
  from assms(1) have x: "x \<le> of_int k * ?u" "- (of_int k * ?u) \<le> x" by linarith+
  have "x / ?u \<le> of_int k" using x(1) u by (simp add: pos_divide_le_eq)
  then have hi: "rhe (x / ?u) \<le> k" by (rule rhe_le)
  have "of_int (- k) \<le> x / ?u" using x(2) u by (simp add: pos_le_divide_eq)
  then have lo: "- k \<le> rhe (x / ?u)" by (rule rhe_ge)
  from hi lo have "\<bar>rhe (x / ?u)\<bar> \<le> k" by linarith
  then have "\<bar>(of_int (rhe (x / ?u)) :: rat)\<bar> \<le> of_int k"
    by (simp only: of_int_abs [symmetric] of_int_le_iff)
  then have "\<bar>(of_int (rhe (x / ?u)) :: rat)\<bar> * ?u \<le> of_int k * ?u"
    using u by (simp add: mult_right_mono)
  then have b: "\<bar>?y\<bar> \<le> of_int k * ?u" using u by (simp add: abs_mult)
  with assms(2) have "\<bar>?y\<bar> < 2 ^ 1024" by simp
  then have "\<not> 2 ^ 1024 \<le> ?y" "\<not> ?y \<le> - (2 ^ 1024)" by linarith+
  then have "rnd x = Fin ?y" using False by (simp add: rnd_def Let_def)
  with b show ?thesis by simp
qed

lemma ulp_divides_big:
  assumes "x \<noteq> 0" and "\<bar>x\<bar> < 2 ^ 1023"
  shows "\<exists>k. of_int k * ulp x = 2 ^ 1023"
proof -
  have p: "0 < \<bar>x\<bar>" using assms(1) by simp
  have "2 powi (expo \<bar>x\<bar>) \<le> \<bar>x\<bar>" using expo_bounds [OF p] by simp
  with assms(2) have "(2::rat) powi (expo \<bar>x\<bar>) < 2 powi 1023" by simp
  then have e: "expo \<bar>x\<bar> < 1023" by (rule pow2_less_imp)
  define e' where "e' = max (expo \<bar>x\<bar>) (- 1022) - 52"
  define n where "n = nat (1023 - e')"
  have n: "int n + e' = 1023" using e by (simp add: n_def e'_def)
  have "of_int (2 ^ n) * ulp x = (2::rat) powi (int n) * 2 powi e'"
    by (simp add: ulp_def e'_def)
  also have "\<dots> = 2 powi (int n + e')" by (simp add: power_int_add)
  also have "\<dots> = 2 ^ 1023" by (simp only: n) simp
  finally show ?thesis by blast
qed

lemma rnd_finite:
  assumes "\<bar>x\<bar> < 2 ^ 1023"
  shows "\<exists>y. rnd x = Fin y"
proof (cases "x = 0")
  case True
  then show ?thesis by (simp add: rnd_def)
next
  case False
  from ulp_divides_big [OF False assms] obtain k where k: "of_int k * ulp x = 2 ^ 1023" by blast
  have "\<bar>x\<bar> \<le> of_int k * ulp x" using assms by (simp add: k)
  moreover have "of_int k * ulp x < 2 ^ 1024" by (simp add: k)
  ultimately show ?thesis using rnd_abs_between [of x k] by blast
qed

lemma float_of_int_ok:
  assumes "\<bar>n\<bar> < 2 ^ 1002"
  shows "\<exists>y. float_of_int n = Inr (Fin y)"
proof -
  have "\<bar>n\<bar> < 2 ^ 1023" using assms by (rule less_trans) simp
  then have "of_int \<bar>n\<bar> < (of_int (2 ^ 1023) :: rat)" by (simp only: of_int_less_iff)
  then have "\<bar>of_int n :: rat\<bar> < 2 ^ 1023" by simp
  from rnd_finite [OF this] show ?thesis by (auto simp: float_of_int_def)
qed

lemma seat_ok_int:
  "seat_ok env v \<Longrightarrow> \<exists>n. py_int env v = Inr n \<and> \<bar>n\<bar> < 2 ^ 1000"
proof (induction env v rule: seat_ok.induct)
  case (3 env q)
  then have q: "\<bar>q\<bar> < 2 ^ 1000" by simp
  show ?case
  proof (cases "0 \<le> q")
    case True
    then have "0 \<le> \<lfloor>q\<rfloor>" by simp
    moreover have "\<lfloor>q\<rfloor> < 2 ^ 1000" using q True by (simp add: floor_less_iff)
    ultimately show ?thesis using True by simp
  next
    case False
    then have c: "\<lceil>q\<rceil> \<le> 0" by (simp add: ceiling_le_iff)
    from q have "of_int (- (2 ^ 1000)) < q" by (simp add: abs_less_iff)
    then have "- (2 ^ 1000) < \<lceil>q\<rceil>" by (simp only: less_ceiling_iff)
    with c have "\<bar>\<lceil>q\<rceil>\<bar> < 2 ^ 1000" by (simp only: abs_less_iff) linarith
    then show ?thesis using False by simp
  qed
qed (auto split: option.splits)

lemma price_ok_float: "price_ok env v \<Longrightarrow> \<exists>p. py_float env v = Inr p"
proof (induction env v rule: price_ok.induct)
  case (1 env n)
  then have "\<bar>n\<bar> < 2 ^ 1000" by simp
  then have "\<bar>n\<bar> < 2 ^ 1002" by (rule less_trans) simp
  from float_of_int_ok [OF this] show ?case by auto
qed auto

lemma wf_cat_ok:
  assumes "wf_cat env c"
  shows "\<exists>v g. cat_values env c = Inr v \<and> cat_gross v = Inr g"
proof (cases c)
  case (JObj kvs)
  from assms obtain seats where s: "py_int env (dict_get kvs ''MaxSeats'' (JInt 0)) = Inr seats"
    and sb: "\<bar>seats\<bar> < 2 ^ 1000"
    using seat_ok_int [of env "dict_get kvs ''MaxSeats'' (JInt 0)"] by (auto simp: JObj)
  from assms obtain free where f: "py_int env (dict_get kvs ''SeatsAvail'' (JInt 0)) = Inr free"
    and fb: "\<bar>free\<bar> < 2 ^ 1000"
    using seat_ok_int [of env "dict_get kvs ''SeatsAvail'' (JInt 0)"] by (auto simp: JObj)
  from assms obtain price where p: "py_float env (dict_get kvs ''CurPrice'' (JInt 0)) = Inr price"
    using price_ok_float [of env "dict_get kvs ''CurPrice'' (JInt 0)"] by (auto simp: JObj)
  have v: "cat_values env c = Inr (seats, free, price)"
    by (simp add: JObj cat_values_def s f p)
  have "\<bar>seats - free\<bar> < 2 ^ 1000 + 2 ^ 1000" using sb fb by linarith
  then have "\<bar>seats - free\<bar> < 2 ^ 1002" by simp
  from float_of_int_ok [OF this] obtain y where "float_of_int (seats - free) = Inr (Fin y)"
    by blast
  then have "cat_gross (seats, free, price) = Inr (fmul (Fin y) price)"
    by (simp add: cat_gross_def)
  with v show ?thesis by blast
qed (use assms in simp_all)

lemma cat_loop_ok:
  "list_all (wf_cat env) cats \<Longrightarrow> \<exists>acc'. cat_loop env acc cats = Inr acc'"
proof (induction cats arbitrary: acc)
  case Nil
  show ?case by (rule exI [of _ acc]) simp
next
  case (Cons c cats)
  then have "wf_cat env c" and r: "list_all (wf_cat env) cats" by simp_all
  from wf_cat_ok [OF this(1)] obtain v g where v: "cat_values env c = Inr v"
    and g: "cat_gross v = Inr g" by blast
  obtain tot sld avail grs where acc: "acc = (tot, sld, avail, grs)"
    using prod_cases4 by blast
  obtain seats free price where vv: "v = (seats, free, price)"
    using prod_cases3 by blast
  from Cons.IH [OF r, of "(tot + seats, sld + (seats - free), avail + free, fadd grs g)"]
  show ?case using g by (simp add: acc v vv)
qed

lemma list_of_JArr: "list_of P v \<Longrightarrow> \<exists>xs. v = JArr xs \<and> list_all P xs"
  by (cases v) simp_all

lemma parse_show_ok:
  assumes "wf_show env sh"
  shows "\<exists>x. parse_show env cx sh = Inr x"
proof (cases sh)
  case (JObj kvs)
  show ?thesis
  proof (cases "dict_get kvs ''ShowDateCode'' JNull = JStr (DATE_CODE env)")
    case True
    with assms have "list_of (wf_cat env) (dict_get kvs ''Categories'' (JArr []))"
      by (simp add: JObj)
    from list_of_JArr [OF this] obtain cats
      where c: "dict_get kvs ''Categories'' (JArr []) = JArr cats"
        and a: "list_all (wf_cat env) cats" by blast
    from cat_loop_ok [OF a, of "(0, 0, 0, Fin 0)"] obtain acc'
      where "cat_loop env (0, 0, 0, Fin 0) cats = Inr acc'" by blast
    then show ?thesis
      by (cases acc') (simp add: JObj parse_show_def True c)
  next
    case False
    then show ?thesis by (simp add: JObj parse_show_def)
  qed
qed (use assms in simp_all)

lemma show_loop_ok:
  "list_all (wf_show env) shs \<Longrightarrow> \<exists>rows. show_loop env cx shs = Inr rows"
proof (induction shs)
  case Nil
  then show ?case by simp
next
  case (Cons sh shs)
  then have "wf_show env sh" and "\<exists>rows. show_loop env cx shs = Inr rows" by simp_all
  with parse_show_ok [of env sh cx] show ?case by auto
qed

lemma is_text_strip: "is_text v \<Longrightarrow> \<exists>s. py_strip v = Inr s"
  by (cases v) simp_all

lemma parse_child_ok:
  assumes "wf_child env ch"
  shows "\<exists>rows. parse_child env cx ch = Inr rows"
proof (cases ch)
  case (JObj kvs)
  from assms obtain ds ls where
    ds: "py_strip (dict_get kvs ''EventDimension'' (JStr [])) = Inr ds"
    and ls: "py_strip (dict_get kvs ''EventLanguage'' (JStr [])) = Inr ls"
    using is_text_strip [of "dict_get kvs ''EventDimension'' (JStr [])"]
      is_text_strip [of "dict_get kvs ''EventLanguage'' (JStr [])"]
    by (auto simp: JObj)
  from assms have "list_of (wf_show env) (dict_get kvs ''ShowTimes'' (JArr []))"
    by (simp add: JObj)
  from list_of_JArr [OF this] obtain shs
    where s: "dict_get kvs ''ShowTimes'' (JArr []) = JArr shs"
      and a: "list_all (wf_show env) shs" by blast
  from show_loop_ok [OF a] show ?thesis
    by (simp add: JObj parse_child_def ds ls s)
qed (use assms in simp_all)

lemma child_loop_ok:
  "list_all (wf_child env) chs \<Longrightarrow> \<exists>rows. child_loop env cx chs = Inr rows"
proof (induction chs)
  case Nil
  then show ?case by simp
next
  case (Cons ch chs)
  then have "wf_child env ch" and "\<exists>rows. child_loop env cx chs = Inr rows" by simp_all
  with parse_child_ok [of env ch cx] show ?case by auto
qed

lemma parse_event_ok:
  assumes "wf_event env ev"
  shows "\<exists>rows. parse_event env cx ev = Inr rows"
proof (cases ev)
  case (JObj kvs)
  from assms have "list_of (wf_child env) (dict_get kvs ''ChildEvents'' (JArr []))"
    by (simp add: JObj)
  from list_of_JArr [OF this] obtain chs
    where s: "dict_get kvs ''ChildEvents'' (JArr []) = JArr chs"
      and a: "list_all (wf_child env) chs" by blast
  from child_loop_ok [OF a] show ?thesis
    by (simp add: JObj parse_event_def s)
qed (use assms in simp_all)

lemma event_loop_ok:
  "list_all (wf_event env) evs \<Longrightarrow> \<exists>rows. event_loop env cx evs = Inr rows"
proof (induction evs)
  case Nil
  then show ?case by simp
next
  case (Cons ev evs)
  then have "wf_event env ev" and "\<exists>rows. event_loop env cx evs = Inr rows" by simp_all
  with parse_event_ok [of env ev cx] show ?case by auto
qed

lemma wf_details_ok:
  assumes "wf_details env d"
  shows "\<exists>rows.
     and_then (py_get d ''Venues'' (JObj [])) (\<lambda>vn.
     and_then (py_get vn ''VenueName'' (JStr [])) (\<lambda>name.
     and_then (py_get vn ''VenueAdd'' (JStr [])) (\<lambda>add.
     and_then (py_get vn ''VenueCompName'' (JStr ''Unknown'')) (\<lambda>comp.
     and_then (py_get d ''Event'' (JArr [])) (\<lambda>es.
     and_then (py_iter es) (\<lambda>evs.
     event_loop env
       \<lparr>venue_name = name, venue_add = add, chain_name = comp,
        title = JNull, dim = [], lang = []\<rparr> evs)))))) = Inr rows"
proof (cases d)
  case (JObj kvs)
  from assms obtain vkvs where v: "dict_get kvs ''Venues'' (JObj []) = JObj vkvs"
    by (cases "dict_get kvs ''Venues'' (JObj [])") (simp_all add: JObj)
  from assms have "list_of (wf_event env) (dict_get kvs ''Event'' (JArr []))"
    by (simp add: JObj)
  from list_of_JArr [OF this] obtain evs
    where s: "dict_get kvs ''Event'' (JArr []) = JArr evs"
      and a: "list_all (wf_event env) evs" by blast
  from event_loop_ok [OF a] show ?thesis
    by (simp add: JObj v s)
qed (use assms in simp_all)

lemma parse_payload_ok:
  assumes "wf_payload env data"
  shows "\<exists>rows. parse_payload env data = Inr rows"
proof (cases data)
  case (JObj kvs)
  show ?thesis
  proof (cases "\<exists>d ds. dict_get kvs ''ShowDetails'' (JArr []) = JArr (d # ds)")
    case True
    then obtain d ds where sd: "dict_get kvs ''ShowDetails'' (JArr []) = JArr (d # ds)" by blast
    with assms have "wf_details env d" by (simp add: JObj)
    from wf_details_ok [OF this] show ?thesis
      by (simp add: JObj parse_payload_def sd)
  next
    case False
    with assms have "\<not> truthy (dict_get kvs ''ShowDetails'' (JArr []))"
      by (auto simp: JObj split: json.splits list.splits)
    then show ?thesis by (simp add: JObj parse_payload_def)
  qed
qed (use assms in simp_all)

lemma tag_rows_ok: "\<exists>ts. tag_rows env (JObj meta) rows = Inr ts \<and> length ts = length rows"
  by (induction rows) auto

text \<open>
  Claim C7, as amended. For every payload whose present fields have the expected
  types, the fields that are missing are defaulted inside the parser and \<open>parse_payload\<close>
  does not raise, so that the per-venue step extends the records and records no failure
  for the venue. (A field of another type does make the parser raise, see the
  counterexample.)
\<close>

theorem well_formed_payload_parses:
  assumes "wf_payload env data"
  shows "\<exists>rows ts. parse_payload env data = Inr rows
           \<and> venue_step env (JObj meta) (Inr data) = Extended ts
           \<and> length ts = length rows"
proof -
  from parse_payload_ok [OF assms] obtain rows where r: "parse_payload env data = Inr rows"
    by blast
  from tag_rows_ok [of env meta rows] obtain ts
    where "tag_rows env (JObj meta) rows = Inr ts" and "length ts = length rows" by blast
  with r show ?thesis by (simp add: venue_step_def)
qed

lemma wf_scenario_a:
  "wf_payload sample_runtime
     (sample_payload hindi_2d
        [sample_entry [(''Attributes'', JStr ''SCREEN 1''),
                       (''Categories'', JArr [category (JInt 100) (JInt 2) (JInt 200)])]])"
  by (simp add: sample_payload_def sample_details_def sample_entry_def sample_runtime_def
      hindi_2d_def category_def dict_get_def)

theorem well_formed_payload_parses_witness:
  "wf_payload sample_runtime
     (sample_payload hindi_2d
        [sample_entry [(''Attributes'', JStr ''SCREEN 1''),
                       (''Categories'', JArr [category (JInt 100) (JInt 2) (JInt 200)])]])
   \<and> (\<exists>rows ts.
        parse_payload sample_runtime
          (sample_payload hindi_2d
             [sample_entry [(''Attributes'', JStr ''SCREEN 1''),
                            (''Categories'', JArr [category (JInt 100) (JInt 2) (JInt 200)])]]) =
        Inr rows
      \<and> venue_step sample_runtime (JObj [(''City'', JStr ''Pune''), (''State'', JStr ''State'')])
          (Inr (sample_payload hindi_2d
             [sample_entry [(''Attributes'', JStr ''SCREEN 1''),
                            (''Categories'', JArr [category (JInt 100) (JInt 2) (JInt 200)])]])) =
        Extended ts
      \<and> length ts = length rows \<and> length rows = 1)"
proof -
  from well_formed_payload_parses [OF wf_scenario_a,
      of "[(''City'', JStr ''Pune''), (''State'', JStr ''State'')]"]
  show ?thesis using wf_scenario_a parse_scenario_a by auto
qed

text \<open>
  The claim as stated fails: a payload that is valid JSON, with \<open>null\<close> for the
  dimension of a child event, makes the parser raise AttributeError, and the per-venue
  step ends in its \<open>except\<close> branch with that failure.
\<close>

theorem parse_raises_counterexample:
  "parse_payload sample_runtime
     (sample_payload [(''EventDimension'', JNull)] [sample_entry []]) = Inl AttributeError
   \<and> venue_step sample_runtime (JObj [(''City'', JStr ''Pune''), (''State'', JStr ''State'')])
       (Inr (sample_payload [(''EventDimension'', JNull)] [sample_entry []])) =
     Failed AttributeError"
  by (simp add: venue_step_def parse_null_dimension)

section \<open>The sums over the categories of a show\<close>

lemma cat_values_defaulted:
  assumes "cat_values env c = Inr v"
  shows "defaulted c v"
proof (cases c)
  case (JObj kvs)
  obtain seats free price where v: "v = (seats, free, price)"
    using prod_cases3 by blast
  from assms have "py_int env (dict_get kvs ''MaxSeats'' (JInt 0)) = Inr seats"
    and "py_int env (dict_get kvs ''SeatsAvail'' (JInt 0)) = Inr free"
    and "py_float env (dict_get kvs ''CurPrice'' (JInt 0)) = Inr price"
    by (auto simp: JObj v cat_values_def and_then_Inr)
  then show ?thesis
    by (auto simp: JObj v dict_get_def float_of_int_def rnd_def)
qed simp_all

lemma category_reads_iff: "category_reads env c v \<longleftrightarrow> cat_values env c = Inr v"
proof (cases c)
  case (JObj ckvs)
  obtain seats free price where v: "v = (seats, free, price)"
    using prod_cases3 by blast
  show ?thesis
    by (auto simp: JObj v cat_values_def and_then_Inr dict_get_def)
qed (simp_all add: cat_values_def)

lemma category_product_iff: "category_product v x \<longleftrightarrow> cat_gross v = Inr x"
proof -
  obtain seats free price where v: "v = (seats, free, price)"
    using prod_cases3 by blast
  show ?thesis
    by (auto simp: v cat_gross_def float_of_int_def and_then_Inr split: pyfloat.splits)
qed

lemma cat_loop_sums:
  "cat_loop env (t, s, a, g) cats = Inr (t', s', a', g')
   \<Longrightarrow> \<exists>vs gs. list_all2 (\<lambda>c v. cat_values env c = Inr v \<and> defaulted c v) cats vs
         \<and> list_all2 (\<lambda>v x. cat_gross v = Inr x) vs gs
         \<and> t' = t + (\<Sum>(seats, free, price)\<leftarrow>vs. seats)
         \<and> s' = s + (\<Sum>(seats, free, price)\<leftarrow>vs. seats - free)
         \<and> a' = a + (\<Sum>(seats, free, price)\<leftarrow>vs. free)
         \<and> g' = foldl fadd g gs"
proof (induction cats arbitrary: t s a g)
  case Nil
  then show ?case by simp
next
  case (Cons c cats)
  from Cons.prems obtain seats free price x
    where v: "cat_values env c = Inr (seats, free, price)"
      and x: "cat_gross (seats, free, price) = Inr x"
      and r: "cat_loop env (t + seats, s + (seats - free), a + free, fadd g x) cats =
              Inr (t', s', a', g')"
    by (auto simp: and_then_Inr split: prod.splits)
  from Cons.IH [OF r] obtain vs gs
    where "list_all2 (\<lambda>c v. cat_values env c = Inr v \<and> defaulted c v) cats vs"
      and "list_all2 (\<lambda>v x. cat_gross v = Inr x) vs gs"
      and "t' = t + seats + (\<Sum>(seats, free, price)\<leftarrow>vs. seats)"
      and "s' = s + (seats - free) + (\<Sum>(seats, free, price)\<leftarrow>vs. seats - free)"
      and "a' = a + free + (\<Sum>(seats, free, price)\<leftarrow>vs. free)"
      and "g' = foldl fadd (fadd g x) gs"
    by blast
  with v x cat_values_defaulted [OF v] show ?case
    by (intro exI [of _ "(seats, free, price) # vs"] exI [of _ "x # gs"]) (simp add: split_def)
qed

lemma cat_loop_total:
  assumes "list_all2 (\<lambda>c v. cat_values env c = Inr v) cats vs"
    and "list_all2 (\<lambda>v x. cat_gross v = Inr x) vs gs"
  shows "cat_loop env (t, s, a, g) cats =
         Inr (t + (\<Sum>(seats, free, price)\<leftarrow>vs. seats),
              s + (\<Sum>(seats, free, price)\<leftarrow>vs. seats - free),
              a + (\<Sum>(seats, free, price)\<leftarrow>vs. free),
              foldl fadd g gs)"
  using assms
proof (induction cats arbitrary: vs gs t s a g)
  case Nil
  then show ?case by simp
next
  case (Cons c cats)
  from Cons.prems(1) obtain v vs' where vs: "vs = v # vs'" and v: "cat_values env c = Inr v"
    and r: "list_all2 (\<lambda>c v. cat_values env c = Inr v) cats vs'"
    by (auto simp: list_all2_Cons1)
  from Cons.prems(2) obtain x gs' where gs: "gs = x # gs'" and x: "cat_gross v = Inr x"
    and r': "list_all2 (\<lambda>v x. cat_gross v = Inr x) vs' gs'"
    by (auto simp: vs list_all2_Cons1)
  obtain seats free price where vv: "v = (seats, free, price)"
    using prod_cases3 by blast
  from Cons.IH [OF r r', of "t + seats" "s + (seats - free)" "a + free" "fadd g x"] v x
  show ?case by (simp add: vs gs vv split_def)
qed

lemma parse_show_sums:
  assumes "parse_show env cx sh = Inr (Some r)"
  shows "\<exists>kvs cats vs gs. sh = JObj kvs
     \<and> py_iter (dict_get kvs ''Categories'' (JArr [])) = Inr cats
     \<and> list_all2 (\<lambda>c v. cat_values env c = Inr v \<and> defaulted c v) cats vs
     \<and> list_all2 (\<lambda>v x. cat_gross v = Inr x) vs gs
     \<and> totalSeats r = (\<Sum>(seats, free, price)\<leftarrow>vs. seats)
     \<and> available r = (\<Sum>(seats, free, price)\<leftarrow>vs. free)
     \<and> sold r = (\<Sum>(seats, free, price)\<leftarrow>vs. seats - free)
     \<and> gross r = round2 (foldl fadd (Fin 0) gs)"
proof (cases sh)
  case (JObj kvs)
  from assms obtain cats t s a g
    where cats: "py_iter (dict_get kvs ''Categories'' (JArr [])) = Inr cats"
      and loop: "cat_loop env (0, 0, 0, Fin 0) cats = Inr (t, s, a, g)"
      and r: "totalSeats r = t" "sold r = s" "available r = a" "gross r = round2 g"
    by (auto simp: JObj parse_show_def and_then_Inr split: if_splits prod.splits)
  from cat_loop_sums [OF loop] r cats JObj show ?thesis by auto
qed (use assms in \<open>simp_all add: parse_show_def\<close>)

lemma target_entry_not_skipped:
  assumes "dict_get kvs ''ShowDateCode'' JNull = JStr (DATE_CODE env)"
  shows "parse_show env cx (JObj kvs) \<noteq> Inr None"
  using assms
  by (auto simp: parse_show_def and_then_Inr split: prod.splits)

lemma target_entry_emitted:
  assumes "dict_get kvs ''ShowDateCode'' JNull = JStr (DATE_CODE env)"
    and "py_iter (dict_get kvs ''Categories'' (JArr [])) = Inr cats"
    and "list_all2 (\<lambda>c v. cat_values env c = Inr v) cats vs"
    and "list_all2 (\<lambda>v x. cat_gross v = Inr x) vs gs"
  shows "\<exists>r. parse_show env cx (JObj kvs) = Inr (Some r)
     \<and> totalSeats r = (\<Sum>(seats, free, price)\<leftarrow>vs. seats)
     \<and> available r = (\<Sum>(seats, free, price)\<leftarrow>vs. free)
     \<and> sold r = (\<Sum>(seats, free, price)\<leftarrow>vs. seats - free)
     \<and> gross r = round2 (foldl fadd (Fin 0) gs)"
  using assms(1,2) cat_loop_total [OF assms(3,4), where t = 0 and s = 0 and a = 0 and g = "Fin 0"]
  by (simp add: parse_show_def)

text \<open>
  Claim C5, as amended. A show-time entry of the target date is never skipped. It yields
  a record exactly when the three numbers \<open>(seats, free, price)\<close> of each of its
  categories can be read and multiplied (otherwise the parser raises), a missing number
  being read as zero; the record then has the sum of the seats as \<open>totalSeats\<close>, the sum
  of the free seats as \<open>available\<close>, the sum of \<open>seats - free\<close> as \<open>sold\<close>, and as \<open>gross\<close>
  the floating-point sum, accumulated in the order of the categories, of the products
  \<open>(seats - free) * price\<close>, rounded to two decimals.
\<close>

theorem category_sums:
  assumes "dict_get kvs ''ShowDateCode'' JNull = JStr (DATE_CODE env)"
    and "py_iter (dict_get kvs ''Categories'' (JArr [])) = Inr cats"
  shows "parse_show env cx (JObj kvs) \<noteq> Inr None
     \<and> (\<forall>r. parse_show env cx (JObj kvs) = Inr (Some r) \<longrightarrow>
          (\<exists>vs gs. list_all2 (category_reads env) cats vs \<and> list_all2 category_product vs gs))
     \<and> (\<forall>vs gs. list_all2 (category_reads env) cats vs \<and> list_all2 category_product vs gs \<longrightarrow>
          (\<exists>r. parse_show env cx (JObj kvs) = Inr (Some r)
             \<and> totalSeats r = (\<Sum>(seats, free, price)\<leftarrow>vs. seats)
             \<and> available r = (\<Sum>(seats, free, price)\<leftarrow>vs. free)
             \<and> sold r = (\<Sum>(seats, free, price)\<leftarrow>vs. seats - free)
             \<and> gross r = round2 (foldl fadd (Fin 0) gs)
             \<and> list_all2 defaulted cats vs))"
proof (intro conjI allI impI)
  show "parse_show env cx (JObj kvs) \<noteq> Inr None"
    using assms(1) by (rule target_entry_not_skipped)
next
  fix r
  assume "parse_show env cx (JObj kvs) = Inr (Some r)"
  from parse_show_sums [OF this] assms(2) obtain vs gs
    where "list_all2 (\<lambda>c v. cat_values env c = Inr v \<and> defaulted c v) cats vs"
      and g: "list_all2 (\<lambda>v x. cat_gross v = Inr x) vs gs"
    by auto
  then have "list_all2 (\<lambda>c v. cat_values env c = Inr v) cats vs"
    by (auto elim: list_all2_mono)
  with g show "\<exists>vs gs. list_all2 (category_reads env) cats vs \<and> list_all2 category_product vs gs"
    unfolding category_reads_iff [abs_def] category_product_iff [abs_def] by blast
next
  fix vs gs
  assume "list_all2 (category_reads env) cats vs \<and> list_all2 category_product vs gs"
  then have v: "list_all2 (\<lambda>c v. cat_values env c = Inr v) cats vs"
    and g: "list_all2 (\<lambda>v x. cat_gross v = Inr x) vs gs"
    unfolding category_reads_iff [abs_def] category_product_iff [abs_def] by simp_all
  from v have "list_all2 defaulted cats vs"
    by (auto elim!: list_all2_mono dest: cat_values_defaulted)
  with target_entry_emitted [OF assms v g, where cx = cx]
  show "\<exists>r. parse_show env cx (JObj kvs) = Inr (Some r)
      \<and> totalSeats r = (\<Sum>(seats, free, price)\<leftarrow>vs. seats)
      \<and> available r = (\<Sum>(seats, free, price)\<leftarrow>vs. free)
      \<and> sold r = (\<Sum>(seats, free, price)\<leftarrow>vs. seats - free)
      \<and> gross r = round2 (foldl fadd (Fin 0) gs)
      \<and> list_all2 defaulted cats vs"
    by blast
qed

lemma parse_show_scenario_a:
  "parse_show sample_runtime sample_context
     (sample_entry [(''Attributes'', JStr ''SCREEN 1''),
                    (''Categories'', JArr [category (JInt 100) (JInt 2) (JInt 200)])]) =
   Inr (Some \<lparr>movie = JStr ''Film'', venue = JStr ''PVR'', address = JStr ''Road'',
         language = ''Hindi'', dimension = ''2D'', chain = JStr ''Chain'',
         time = JStr ''10:00 AM'', audi = JStr ''SCREEN 1'', session_id = ''S1'',
         totalSeats = 100, available = 2, sold = 98, gross = Fin 19600\<rparr>)"
  by (simp add: parse_eval sample_context_def rnd_eval rnd_at [where k = 7])

lemma parse_show_two_categories:
  "parse_show sample_runtime sample_context
     (sample_entry [(''Categories'',
        JArr [category (JInt 100) (JInt 2) (JInt 200),
              JObj [(''MaxSeats'', JInt 50), (''CurPrice'', JInt 300)]])]) =
   Inr (Some \<lparr>movie = JStr ''Film'', venue = JStr ''PVR'', address = JStr ''Road'',
         language = ''Hindi'', dimension = ''2D'', chain = JStr ''Chain'',
         time = JStr ''10:00 AM'', audi = JStr [], session_id = ''S1'',
         totalSeats = 150, available = 2, sold = 148, gross = Fin 34600\<rparr>)"
  by (simp add: parse_eval sample_context_def rnd_eval rnd_at [where k = 7]
      rnd_at [where k = 8] rnd_at [where k = 15])

lemma aggregate_scenario_a:
  "\<exists>fm. aggregate [show_a] = Inr [(''Film'', fm)]
     \<and> f_shows fm = 1 \<and> f_sold fm = 98 \<and> f_totalSeats fm = 100 \<and> f_gross fm = Fin 19600
     \<and> f_housefull fm = 1 \<and> f_fastfilling fm = 0 \<and> f_occupancy fm = Fin 98"
  by (simp add: show_a_def summary_eval occ_98_100 rnd_eval)

theorem category_sums_witness:
  "parse_show sample_runtime sample_context
     (JObj [(''ShowDateCode'', JStr ''20250101''), (''ShowTime'', JStr ''10:00 AM''),
            (''SessionId'', JStr ''S1''),
            (''Categories'',
               JArr [category (JInt 100) (JInt 2) (JInt 200),
                     JObj [(''MaxSeats'', JInt 50), (''CurPrice'', JInt 300)]])]) \<noteq> Inr None
   \<and> list_all2 (category_reads sample_runtime)
       [category (JInt 100) (JInt 2) (JInt 200),
        JObj [(''MaxSeats'', JInt 50), (''CurPrice'', JInt 300)]]
       [(100, 2, Fin 200), (50, 0, Fin 300)]
   \<and> list_all2 category_product [(100, 2, Fin 200), (50, 0, Fin 300)] [Fin 19600, Fin 15000]
   \<and> (\<exists>r. parse_show sample_runtime sample_context
            (JObj [(''ShowDateCode'', JStr ''20250101''), (''ShowTime'', JStr ''10:00 AM''),
                   (''SessionId'', JStr ''S1''),
                   (''Categories'',
                      JArr [category (JInt 100) (JInt 2) (JInt 200),
                            JObj [(''MaxSeats'', JInt 50), (''CurPrice'', JInt 300)]])]) =
          Inr (Some r)
        \<and> totalSeats r = 150 \<and> available r = 2 \<and> sold r = 148 \<and> gross r = Fin 34600)
   \<and> parse_show sample_runtime sample_context
       (sample_entry [(''Attributes'', JStr ''SCREEN 1''),
                      (''Categories'', JArr [category (JInt 100) (JInt 2) (JInt 200)])]) =
     Inr (Some \<lparr>movie = JStr ''Film'', venue = JStr ''PVR'', address = JStr ''Road'',
           language = ''Hindi'', dimension = ''2D'', chain = JStr ''Chain'',
           time = JStr ''10:00 AM'', audi = JStr ''SCREEN 1'', session_id = ''S1'',
           totalSeats = 100, available = 2, sold = 98, gross = Fin 19600\<rparr>)
   \<and> calc_occupancy 98 100 = Inr (Fin 98) \<and> fge (Fin 98) 98"
proof -
  let ?cats = "[category (JInt 100) (JInt 2) (JInt 200),
                JObj [(''MaxSeats'', JInt 50), (''CurPrice'', JInt 300)]]"
  let ?kvs = "[(''ShowDateCode'', JStr ''20250101''), (''ShowTime'', JStr ''10:00 AM''),
               (''SessionId'', JStr ''S1''), (''Categories'', JArr ?cats)]"
  let ?vs = "[(100, 2, Fin 200), (50, 0, Fin 300)] :: (int \<times> int \<times> pyfloat) list"
  let ?gs = "[Fin 19600, Fin 15000]"
  have d: "dict_get ?kvs ''ShowDateCode'' JNull = JStr (DATE_CODE sample_runtime)"
    by (simp add: dict_get_def sample_runtime_def)
  have c: "py_iter (dict_get ?kvs ''Categories'' (JArr [])) = Inr ?cats"
    by (simp add: dict_get_def)
  have v: "list_all2 (category_reads sample_runtime) ?cats ?vs"
    by (simp add: category_def float_of_int_def rnd_eval rnd_at [where k = 7]
        rnd_at [where k = 8])
  have g: "list_all2 category_product ?vs ?gs"
    by (simp add: rnd_eval)
  have s: "round2 (foldl fadd (Fin 0) ?gs) = Fin 34600"
    by (simp add: rnd_eval rnd_at [where k = 15])
  from category_sums [OF d c, of sample_context] v g
  have n: "parse_show sample_runtime sample_context (JObj ?kvs) \<noteq> Inr None"
    and "\<exists>r. parse_show sample_runtime sample_context (JObj ?kvs) = Inr (Some r)
        \<and> totalSeats r = (\<Sum>(seats, free, price)\<leftarrow>?vs. seats)
        \<and> available r = (\<Sum>(seats, free, price)\<leftarrow>?vs. free)
        \<and> sold r = (\<Sum>(seats, free, price)\<leftarrow>?vs. seats - free)
        \<and> gross r = round2 (foldl fadd (Fin 0) ?gs)
        \<and> list_all2 defaulted ?cats ?vs"
    by blast+
  then have e: "\<exists>r. parse_show sample_runtime sample_context (JObj ?kvs) = Inr (Some r)
        \<and> totalSeats r = 150 \<and> available r = 2 \<and> sold r = 148 \<and> gross r = Fin 34600"
    unfolding s by auto
  have f: "fge (Fin 98) 98" by simp
  from n v g e parse_show_scenario_a occ_98_100 f show ?thesis by (intro conjI)
qed

text \<open>
  The claim as stated fails for the gross: it is not the sum of the products, but that
  sum rounded to two decimals. One seat sold at the price 0.125 gives the product 0.125
  and the gross 0.12.
\<close>

theorem gross_rounded_counterexample:
  "parse_show sample_runtime sample_context
     (sample_entry [(''Categories'', JArr [category (JInt 1) (JInt 0) (JFloat (Fin (1 / 8)))])]) =
   Inr (Some \<lparr>movie = JStr ''Film'', venue = JStr ''PVR'', address = JStr ''Road'',
         language = ''Hindi'', dimension = ''2D'', chain = JStr ''Chain'',
         time = JStr ''10:00 AM'', audi = JStr [], session_id = ''S1'',
         totalSeats = 1, available = 0, sold = 1,
         gross = Fin (1080863910568919 / 9007199254740992)\<rparr>)
   \<and> category_reads sample_runtime (category (JInt 1) (JInt 0) (JFloat (Fin (1 / 8))))
       (1, 0, Fin (1 / 8))
   \<and> category_product (1, 0, Fin (1 / 8)) (Fin (1 / 8))
   \<and> Fin (1080863910568919 / 9007199254740992) \<noteq> Fin (1 / 8)"
  by (simp add: parse_eval sample_context_def rnd_eval rnd_at [where k = "- 3"]
      rnd_at [where k = "- 4"])

section \<open>The order of the records\<close>

lemma calc_occupancy_error: "calc_occupancy a b = Inl e \<Longrightarrow> e = OverflowError"
  by (auto simp: calc_occupancy_def true_div_def split: if_splits pyfloat.splits sum.splits)

lemma tally_of_bump: "tally_of (bump r occ b) = contrib r occ (tally_of b)"
  by (simp add: tally_of_def bump_def contrib_def)

lemma contrib_commute:
  "contrib r occ (contrib r' occ' t) = contrib r' occ' (contrib r occ t)"
  by (simp add: contrib_def split_def insert_commute)

lemma map_of_upd:
  "map_of (upd k init f kvs) j =
   (if j = k then Some (f (get_or k init kvs)) else map_of kvs j)"
  by (induction kvs) (auto simp: get_or_def)

lemma dict_abs_Nil: "dict_abs \<alpha> [] = Map.empty"
  by (rule ext) (simp add: dict_abs_def)

lemma dict_abs_upd:
  assumes "\<And>v. \<alpha> (f v) = g (\<alpha> v)" and "\<alpha> init = z"
  shows "dict_abs \<alpha> (upd k init f kvs) = astep k z g (dict_abs \<alpha> kvs)"
  by (rule ext) (simp add: dict_abs_def map_of_upd astep_def get_or_def assms split: option.splits)

lemma dict_abs_bump:
  "dict_abs tally_of (upd k new_bucket (bump r occ) kvs) =
   astep k tally_zero (contrib r occ) (dict_abs tally_of kvs)"
  by (rule dict_abs_upd) (simp_all add: tally_of_bump, simp add: tally_of_def new_bucket_def tally_zero_def)

lemma astep_commute:
  assumes "\<And>a. g (h a) = h (g a)"
  shows "astep k z g (astep j z h d) = astep j z h (astep k z g d)"
  by (rule ext) (auto simp: astep_def assms split: option.splits)

lemma movie_tally_step: "movie_tally (movie_step r occ m) = mstep r occ (movie_tally m)"
proof -
  have "tally_of (movie_step r occ m) = contrib r occ (tally_of m)"
    by (simp add: movie_step_def Let_def tally_of_def bump_def contrib_def)
  moreover have "b_cities (movie_step r occ m) = insert (city r) (b_cities m)"
    by (simp add: movie_step_def Let_def bump_def)
  moreover have "details (movie_step r occ m) =
      upd (city r, state r) new_bucket (bump r occ) (details m)"
    by (simp add: movie_step_def Let_def bump_def)
  moreover have "Language_details (movie_step r occ m) =
      upd (language r) new_bucket (bump r occ) (Language_details m)"
    by (simp add: movie_step_def Let_def bump_def)
  moreover have "Format_details (movie_step r occ m) =
      upd (dimension r) new_bucket (bump r occ) (Format_details m)"
    by (simp add: movie_step_def Let_def bump_def)
  ultimately show ?thesis
    by (simp add: movie_tally_def mstep_def dict_abs_bump)
qed

lemma movie_tally_new: "movie_tally new_movie = movie_zero"
  by (simp add: movie_tally_def movie_zero_def new_movie_def tally_of_def tally_zero_def
      dict_abs_Nil)

lemma mstep_commute: "mstep r occ (mstep r' occ' a) = mstep r' occ' (mstep r occ a)"
proof -
  obtain t cs d1 d2 d3 where a: "a = (t, cs, d1, d2, d3)"
    using prod_cases5 by blast
  have c: "contrib r occ (contrib r' occ' x) = contrib r' occ' (contrib r occ x)" for x
    by (rule contrib_commute)
  show ?thesis
    unfolding a mstep_def
    by (simp add: contrib_commute [of r occ r' occ'] insert_commute [of "city r" "city r'"]
        astep_commute [where g = "contrib r occ" and h = "contrib r' occ'", OF c])
qed

lemma sstep_commute: "sstep r (sstep r' s) = sstep r' (sstep r s)"
proof (cases "calc_occupancy (sold r) (totalSeats r)")
  case (Inl e)
  then show ?thesis by (simp add: sstep_def)
next
  case a: (Inr x)
  show ?thesis
  proof (cases "calc_occupancy (sold r') (totalSeats r')")
    case (Inl e)
    then show ?thesis by (simp add: sstep_def)
  next
    case (Inr y)
    have c: "mstep r x (mstep r' y b) = mstep r' y (mstep r x b)" for b
      by (rule mstep_commute)
    from a Inr show ?thesis
      by (simp add: sstep_def astep_commute [where g = "mstep r x" and h = "mstep r' y", OF c])
  qed
qed

lemma keys_upd: "fst ` set (upd k init f kvs) = insert k (fst ` set kvs)"
proof (induction kvs)
  case Nil
  show ?case by simp
next
  case (Cons a kvs)
  obtain j v where a: "a = (j, v)" by (cases a)
  show ?case
  proof (cases "k = j")
    case True
    then show ?thesis by (simp add: a)
  next
    case False
    with Cons.IH show ?thesis by (simp add: a insert_commute)
  qed
qed

lemma distinct_upd: "distinct (map fst kvs) \<Longrightarrow> distinct (map fst (upd k init f kvs))"
proof (induction kvs)
  case Nil
  then show ?case by simp
next
  case (Cons a kvs)
  obtain j v where a: "a = (j, v)" by (cases a)
  from Cons have "distinct (map fst (upd k init f kvs))" by simp
  moreover have "j \<notin> fst ` set (upd k init f kvs)" if "k \<noteq> j"
    using Cons.prems that by (simp add: a keys_upd)
  ultimately show ?case using Cons.prems by (simp add: a)
qed

lemma distinct_movie_step: "distinct_movie m \<Longrightarrow> distinct_movie (movie_step r occ m)"
  by (simp add: distinct_movie_def movie_step_def Let_def distinct_upd bump_def)

lemma distinct_new_movie: "distinct_movie new_movie"
  by (simp add: distinct_movie_def new_movie_def)

lemma distinct_summary_upd:
  assumes "distinct_summary s"
  shows "distinct_summary (upd (movie r) new_movie (movie_step r occ) s)"
proof -
  from assms have "list_all (\<lambda>kv. distinct_movie (snd kv)) s"
    by (simp add: distinct_summary_def)
  then have "list_all (\<lambda>kv. distinct_movie (snd kv))
      (upd (movie r) new_movie (movie_step r occ) s)"
    by (rule upd_all) (simp_all add: distinct_movie_step distinct_new_movie)
  with assms show ?thesis by (simp add: distinct_summary_def distinct_upd)
qed

lemma summarize_ok:
  assumes "\<forall>r\<in>set rs. \<not> isl (calc_occupancy (sold r) (totalSeats r))"
    and "distinct_summary s"
  shows "\<exists>s'. summarize s rs = Inr s' \<and> distinct_summary s'
           \<and> dict_abs movie_tally s' = fold sstep rs (dict_abs movie_tally s)"
  using assms
proof (induction rs arbitrary: s)
  case Nil
  then show ?case by simp
next
  case (Cons r rs)
  from Cons.prems(1) obtain occ where occ: "calc_occupancy (sold r) (totalSeats r) = Inr occ"
    by (cases "calc_occupancy (sold r) (totalSeats r)") auto
  let ?s = "upd (movie r) new_movie (movie_step r occ) s"
  have st: "summary_step s r = Inr ?s" by (simp add: summary_step_def occ)
  have d: "distinct_summary ?s" by (rule distinct_summary_upd [OF Cons.prems(2)])
  have "dict_abs movie_tally ?s = astep (movie r) movie_zero (mstep r occ) (dict_abs movie_tally s)"
    by (rule dict_abs_upd) (simp_all add: movie_tally_step movie_tally_new)
  then have a: "dict_abs movie_tally ?s = sstep r (dict_abs movie_tally s)"
    by (simp add: sstep_def occ)
  from Cons.prems(1) have "\<forall>r\<in>set rs. \<not> isl (calc_occupancy (sold r) (totalSeats r))"
    by simp
  from Cons.IH [OF this d] obtain s' where "summarize ?s rs = Inr s'" and "distinct_summary s'"
    and "dict_abs movie_tally s' = fold sstep rs (dict_abs movie_tally ?s)"
    by blast
  then show ?case by (simp add: st a)
qed

lemma summarize_fail:
  "\<exists>r\<in>set rs. isl (calc_occupancy (sold r) (totalSeats r))
   \<Longrightarrow> summarize s rs = Inl OverflowError"
proof (induction rs arbitrary: s)
  case Nil
  then show ?case by simp
next
  case (Cons r rs)
  show ?case
  proof (cases "calc_occupancy (sold r) (totalSeats r)")
    case (Inl e)
    with calc_occupancy_error have "e = OverflowError" by blast
    with Inl show ?thesis by (simp add: summary_step_def)
  next
    case (Inr occ)
    with Cons.prems have "\<exists>r\<in>set rs. isl (calc_occupancy (sold r) (totalSeats r))"
      by auto
    from Cons.IH [OF this] Inr show ?thesis by (simp add: summary_step_def)
  qed
qed

lemma final_entries_for_each: "final_entries kbs = for_each final_bucket kbs"
  by (induction kbs) (auto split: sum.splits)

lemma final_summary_for_each: "final_summary s = for_each final_movie s"
  by (induction s) (auto split: sum.splits)

lemma for_each_result:
  assumes "\<And>v e. f v = Inl e \<Longrightarrow> e = OverflowError"
  shows "for_each f kvs =
     (if \<forall>kv\<in>set kvs. \<not> isl (f (snd kv))
      then Inr (map (\<lambda>kv. (fst kv, projr (f (snd kv)))) kvs)
      else Inl OverflowError)"
proof (induction kvs)
  case Nil
  then show ?case by simp
next
  case (Cons a kvs)
  obtain k v where a: "a = (k, v)" by (cases a)
  show ?case
  proof (cases "f v")
    case (Inl e)
    with assms have "e = OverflowError" by blast
    with Inl show ?thesis by (simp add: a)
  next
    case (Inr w)
    then show ?thesis by (simp add: a Cons.IH)
  qed
qed

lemma dict_abs_match:
  assumes "distinct (map fst kvs)" and "dict_abs \<alpha> kvs = dict_abs \<alpha> kvs'"
    and "(k, v) \<in> set kvs"
  shows "\<exists>v'. (k, v') \<in> set kvs' \<and> \<alpha> v' = \<alpha> v"
proof -
  from assms(1,3) have "map_of kvs k = Some v" by simp
  then have "dict_abs \<alpha> kvs k = Some (\<alpha> v)" by (simp add: dict_abs_def)
  with assms(2) have "dict_abs \<alpha> kvs' k = Some (\<alpha> v)" by simp
  then obtain v' where "map_of kvs' k = Some v'" and "\<alpha> v' = \<alpha> v"
    by (auto simp: dict_abs_def)
  then show ?thesis by (auto dest: map_of_SomeD)
qed

lemma for_each_half:
  assumes d: "distinct (map fst kvs)"
    and eq: "dict_abs \<alpha> kvs = dict_abs \<alpha> kvs'"
    and cong: "\<And>v v'. v \<in> snd ` set kvs \<Longrightarrow> v' \<in> snd ` set kvs' \<Longrightarrow> \<alpha> v = \<alpha> v'
         \<Longrightarrow> map_sum id view (f v) = map_sum id view (f v')"
    and ok: "\<forall>kv\<in>set kvs'. \<not> isl (f (snd kv))"
  shows "(\<forall>kv\<in>set kvs. \<not> isl (f (snd kv)))
       \<and> (\<lambda>kv. (fst kv, view (projr (f (snd kv))))) ` set kvs
         \<subseteq> (\<lambda>kv. (fst kv, view (projr (f (snd kv))))) ` set kvs'"
proof -
  have m: "\<exists>v'. (k, v') \<in> set kvs' \<and> \<not> isl (f v)
             \<and> view (projr (f v)) = view (projr (f v'))"
    if "(k, v) \<in> set kvs" for k v
  proof -
    from dict_abs_match [OF d eq that] obtain v' where v': "(k, v') \<in> set kvs'" "\<alpha> v' = \<alpha> v"
      by blast
    from that have "v \<in> snd ` set kvs" by force
    moreover from v' have "v' \<in> snd ` set kvs'" by force
    moreover from v' have "\<alpha> v = \<alpha> v'" by simp
    ultimately have c: "map_sum id view (f v) = map_sum id view (f v')" by (rule cong)
    from ok v'(1) have n: "\<not> isl (f v')" by auto
    with c have "\<not> isl (f v) \<and> view (projr (f v)) = view (projr (f v'))"
      by (cases "f v"; cases "f v'") auto
    with v'(1) show ?thesis by blast
  qed
  show ?thesis
  proof (intro conjI ballI subsetI)
    fix kv
    assume "kv \<in> set kvs"
    then show "\<not> isl (f (snd kv))" using m [of "fst kv" "snd kv"] by auto
  next
    fix x
    assume "x \<in> (\<lambda>kv. (fst kv, view (projr (f (snd kv))))) ` set kvs"
    then obtain k v where "(k, v) \<in> set kvs" and "x = (k, view (projr (f v)))" by auto
    with m [of k v] show "x \<in> (\<lambda>kv. (fst kv, view (projr (f (snd kv))))) ` set kvs'"
      by force
  qed
qed

lemma for_each_cong:
  assumes err: "\<And>v e. f v = Inl e \<Longrightarrow> e = OverflowError"
    and d: "distinct (map fst kvs)" and d': "distinct (map fst kvs')"
    and eq: "dict_abs \<alpha> kvs = dict_abs \<alpha> kvs'"
    and cong: "\<And>v v'. v \<in> snd ` set kvs \<Longrightarrow> v' \<in> snd ` set kvs' \<Longrightarrow> \<alpha> v = \<alpha> v'
         \<Longrightarrow> map_sum id view (f v) = map_sum id view (f v')"
  shows "map_sum id (\<lambda>ws. (\<lambda>kw. (fst kw, view (snd kw))) ` set ws) (for_each f kvs) =
         map_sum id (\<lambda>ws. (\<lambda>kw. (fst kw, view (snd kw))) ` set ws) (for_each f kvs')"
proof -
  have r: "map_sum id (\<lambda>ws. (\<lambda>kw. (fst kw, view (snd kw))) ` set ws) (for_each f l) =
      (if \<forall>kv\<in>set l. \<not> isl (f (snd kv))
       then Inr ((\<lambda>kv. (fst kv, view (projr (f (snd kv))))) ` set l)
       else Inl OverflowError)" for l :: "('c \<times> 'a) list"
    by (simp add: for_each_result [of f, OF err] image_image)
  have cong': "map_sum id view (f v) = map_sum id view (f v')"
    if "v \<in> snd ` set kvs'" "v' \<in> snd ` set kvs" "\<alpha> v = \<alpha> v'" for v v'
    using cong [OF that(2) that(1)] that(3) by simp
  have h: "(\<forall>kv\<in>set kvs. \<not> isl (f (snd kv)))
       \<and> (\<lambda>kv. (fst kv, view (projr (f (snd kv))))) ` set kvs
         \<subseteq> (\<lambda>kv. (fst kv, view (projr (f (snd kv))))) ` set kvs'"
    if "\<forall>kv\<in>set kvs'. \<not> isl (f (snd kv))"
    using d eq cong that by (rule for_each_half)
  have h': "(\<forall>kv\<in>set kvs'. \<not> isl (f (snd kv)))
       \<and> (\<lambda>kv. (fst kv, view (projr (f (snd kv))))) ` set kvs'
         \<subseteq> (\<lambda>kv. (fst kv, view (projr (f (snd kv))))) ` set kvs"
    if "\<forall>kv\<in>set kvs. \<not> isl (f (snd kv))"
    using d' eq [symmetric] cong' that by (rule for_each_half)
  show ?thesis
  proof (cases "\<forall>kv\<in>set kvs. \<not> isl (f (snd kv))")
    case True
    from h' [OF True] have ok: "\<forall>kv\<in>set kvs'. \<not> isl (f (snd kv))"
      and sub: "(\<lambda>kv. (fst kv, view (projr (f (snd kv))))) ` set kvs'
         \<subseteq> (\<lambda>kv. (fst kv, view (projr (f (snd kv))))) ` set kvs"
      by blast+
    from h [OF ok] sub have e: "(\<lambda>kv. (fst kv, view (projr (f (snd kv))))) ` set kvs' =
        (\<lambda>kv. (fst kv, view (projr (f (snd kv))))) ` set kvs"
      by blast
    show ?thesis unfolding r if_P [OF True] if_P [OF ok] by (simp only: e)
  next
    case False
    with h have n: "\<not> (\<forall>kv\<in>set kvs'. \<not> isl (f (snd kv)))" by blast
    show ?thesis unfolding r if_not_P [OF False] if_not_P [OF n] by (rule refl)
  qed
qed

lemma final_bucket_error: "final_bucket b = Inl e \<Longrightarrow> e = OverflowError"
  by (auto simp: final_bucket_def split: sum.splits dest: calc_occupancy_error)

lemma final_bucket_cong:
  "tally_of b = tally_of b'
   \<Longrightarrow> map_sum id no_gross (final_bucket b) = map_sum id no_gross (final_bucket b')"
  by (simp add: tally_of_def final_bucket_def no_gross_def split: sum.splits)

lemma as_set_fun: "as_set = (\<lambda>ws. (\<lambda>kw. (fst kw, no_gross (snd kw))) ` set ws)"
  by (rule ext) (simp add: as_set_def)

lemma final_entries_cong:
  assumes "distinct (map fst kbs)" and "distinct (map fst kbs')"
    and "dict_abs tally_of kbs = dict_abs tally_of kbs'"
  shows "map_sum id as_set (final_entries kbs) = map_sum id as_set (final_entries kbs')"
  unfolding final_entries_for_each as_set_fun
  using final_bucket_error assms final_bucket_cong by (rule for_each_cong)

lemma final_entries_error: "final_entries kbs = Inl e \<Longrightarrow> e = OverflowError"
  unfolding final_entries_for_each
  by (simp add: for_each_result [of final_bucket, OF final_bucket_error] split: if_splits)

lemma final_movie_error: "final_movie m = Inl e \<Longrightarrow> e = OverflowError"
  by (auto simp: final_movie_def split: sum.splits
      dest: calc_occupancy_error final_entries_error)

lemma map_sum_eq_cases:
  assumes "map_sum id g x = map_sum id g x'"
  obtains e where "x = Inl e" and "x' = Inl e"
  | a a' where "x = Inr a" and "x' = Inr a'" and "g a = g a'"
  using assms by (cases x; cases x') auto

lemma final_movie_cong:
  assumes "distinct_movie m" and "distinct_movie m'" and "movie_tally m = movie_tally m'"
  shows "map_sum id movie_view (final_movie m) = map_sum id movie_view (final_movie m')"
proof -
  from assms(3) have t: "tally_of m = tally_of m'" and c: "b_cities m = b_cities m'"
    and e: "dict_abs tally_of (details m) = dict_abs tally_of (details m')"
      "dict_abs tally_of (Language_details m) = dict_abs tally_of (Language_details m')"
      "dict_abs tally_of (Format_details m) = dict_abs tally_of (Format_details m')"
    by (simp_all add: movie_tally_def)
  from t have f: "b_venues m = b_venues m'" "b_shows m = b_shows m'" "b_sold m = b_sold m'"
    "b_totalSeats m = b_totalSeats m'" "b_fastfilling m = b_fastfilling m'"
    "b_housefull m = b_housefull m'"
    by (simp_all add: tally_of_def)
  have 1: "map_sum id as_set (final_entries (details m)) =
           map_sum id as_set (final_entries (details m'))"
    using assms(1,2) e(1) by (intro final_entries_cong) (simp_all add: distinct_movie_def)
  have 2: "map_sum id as_set (final_entries (Language_details m)) =
           map_sum id as_set (final_entries (Language_details m'))"
    using assms(1,2) e(2) by (intro final_entries_cong) (simp_all add: distinct_movie_def)
  have 3: "map_sum id as_set (final_entries (Format_details m)) =
           map_sum id as_set (final_entries (Format_details m'))"
    using assms(1,2) e(3) by (intro final_entries_cong) (simp_all add: distinct_movie_def)
  show ?thesis
  proof (cases "calc_occupancy (b_sold m') (b_totalSeats m')")
    case (Inl x)
    then show ?thesis by (simp add: final_movie_def f)
  next
    case occ: (Inr occ)
    from 1 show ?thesis
    proof (cases rule: map_sum_eq_cases)
      case (1 x)
      with occ show ?thesis by (simp add: final_movie_def f)
    next
      case a: (2 cs cs')
      from 2 show ?thesis
      proof (cases rule: map_sum_eq_cases)
        case (1 x)
        with occ a show ?thesis by (simp add: final_movie_def f)
      next
        case b: (2 ls ls')
        from 3 show ?thesis
        proof (cases rule: map_sum_eq_cases)
          case (1 x)
          with occ a b show ?thesis by (simp add: final_movie_def f)
        next
          case (2 fs fs')
          with occ a b show ?thesis by (simp add: final_movie_def f c movie_view_def)
        qed
      qed
    qed
  qed
qed

lemma summary_view_fun:
  "summary_view = (\<lambda>ws. (\<lambda>kw. (fst kw, movie_view (snd kw))) ` set ws)"
  by (rule ext) (simp add: summary_view_def)

lemma final_summary_cong:
  assumes "distinct_summary s" and "distinct_summary s'"
    and "dict_abs movie_tally s = dict_abs movie_tally s'"
  shows "map_sum id summary_view (final_summary s) =
         map_sum id summary_view (final_summary s')"
  unfolding final_summary_for_each summary_view_fun
proof (rule for_each_cong [where \<alpha> = movie_tally])
  show "final_movie v = Inl e \<Longrightarrow> e = OverflowError" for v e
    by (rule final_movie_error)
  show "distinct (map fst s)" "distinct (map fst s')"
    using assms(1,2) by (simp_all add: distinct_summary_def)
  show "dict_abs movie_tally s = dict_abs movie_tally s'" by (rule assms(3))
  show "map_sum id movie_view (final_movie v) = map_sum id movie_view (final_movie v')"
    if "v \<in> snd ` set s" "v' \<in> snd ` set s'" "movie_tally v = movie_tally v'" for v v'
  proof -
    from that(1) assms(1) have "distinct_movie v"
      by (auto simp: distinct_summary_def list_all_iff)
    moreover from that(2) assms(2) have "distinct_movie v'"
      by (auto simp: distinct_summary_def list_all_iff)
    ultimately show ?thesis using that(3) by (rule final_movie_cong)
  qed
qed

text \<open>
  Claim C8, as amended. Aggregating a permutation of a record sequence yields the same
  final summary, as a dictionary of movies with the City, Language and Format arrays
  compared as sets, in every field but the gross: the same movies, and for each movie and
  each entry the same counts of shows, sold and total seats, venues, cities, fast-filling
  and housefull shows and the same occupancy (or the same exception). The gross is a
  floating-point sum in the order of the records and can depend on that order.
\<close>

theorem aggregate_permutation:
  assumes "mset rs = mset rs'"
  shows "map_sum id summary_view (aggregate rs) = map_sum id summary_view (aggregate rs')"
proof (cases "\<forall>r\<in>set rs. \<not> isl (calc_occupancy (sold r) (totalSeats r))")
  case True
  from assms have "set rs = set rs'" by (rule mset_eq_setD)
  with True have True': "\<forall>r\<in>set rs'. \<not> isl (calc_occupancy (sold r) (totalSeats r))"
    by simp
  have e: "distinct_summary []" by (simp add: distinct_summary_def)
  from summarize_ok [OF True e] obtain s where s: "summarize [] rs = Inr s"
    "distinct_summary s" "dict_abs movie_tally s = fold sstep rs (dict_abs movie_tally [])"
    by blast
  from summarize_ok [OF True' e] obtain s' where s': "summarize [] rs' = Inr s'"
    "distinct_summary s'" "dict_abs movie_tally s' = fold sstep rs' (dict_abs movie_tally [])"
    by blast
  have "sstep x \<circ> sstep y = sstep y \<circ> sstep x" for x y
    by (rule ext) (simp add: sstep_commute)
  then have "fold sstep rs = fold sstep rs'"
    using assms by (intro fold_multiset_equiv)
  with s(3) s'(3) have "dict_abs movie_tally s = dict_abs movie_tally s'" by simp
  with s(2) s'(2) have "map_sum id summary_view (final_summary s) =
      map_sum id summary_view (final_summary s')"
    by (rule final_summary_cong)
  with s(1) s'(1) show ?thesis by (simp add: aggregate_def)
next
  case False
  then have a: "\<exists>r\<in>set rs. isl (calc_occupancy (sold r) (totalSeats r))" by simp
  from assms have "set rs = set rs'" by (rule mset_eq_setD)
  with a have a': "\<exists>r\<in>set rs'. isl (calc_occupancy (sold r) (totalSeats r))" by simp
  from summarize_fail [OF a] summarize_fail [OF a'] show ?thesis
    by (simp add: aggregate_def)
qed

theorem aggregate_permutation_witness:
  "mset [show_a, show_b] = mset [show_b, show_a]
   \<and> map_sum id summary_view (aggregate [show_a, show_b]) =
     map_sum id summary_view (aggregate [show_b, show_a])"
proof -
  have m: "mset [show_a, show_b] = mset [show_b, show_a]" by (simp add: add_mset_commute)
  from aggregate_permutation [OF m] m show ?thesis by simp
qed

lemma occ_1_1: "calc_occupancy 1 1 = Inr (Fin 100)"
  by (simp add: calc_occupancy_def true_div_def rnd_eval)

lemma occ_2_2: "calc_occupancy 2 2 = Inr (Fin 100)"
  by (simp add: calc_occupancy_def true_div_def rnd_eval)

lemma occ_3_3: "calc_occupancy 3 3 = Inr (Fin 100)"
  by (simp add: calc_occupancy_def true_div_def rnd_eval)

text \<open>
  The claim as stated fails for the gross: three shows of one movie with the gross
  \<open>1e16\<close>, 1.0 and 1.0 give the movie the gross \<open>1e16\<close> in this order, each addition of
  1.0 being rounded away, and \<open>1e16 + 2\<close> when the two small shows come first.
\<close>

theorem gross_order_counterexample:
  "mset [sample ''PVR'' ''Pune'' ''S1'' 1 1 (Fin 10000000000000000),
         sample ''PVR'' ''Pune'' ''S2'' 1 1 (Fin 1),
         sample ''PVR'' ''Pune'' ''S3'' 1 1 (Fin 1)] =
   mset [sample ''PVR'' ''Pune'' ''S2'' 1 1 (Fin 1),
         sample ''PVR'' ''Pune'' ''S3'' 1 1 (Fin 1),
         sample ''PVR'' ''Pune'' ''S1'' 1 1 (Fin 10000000000000000)]
   \<and> map_sum id (map (f_gross \<circ> snd))
       (aggregate [sample ''PVR'' ''Pune'' ''S1'' 1 1 (Fin 10000000000000000),
                   sample ''PVR'' ''Pune'' ''S2'' 1 1 (Fin 1),
                   sample ''PVR'' ''Pune'' ''S3'' 1 1 (Fin 1)]) =
     Inr [Fin 10000000000000000]
   \<and> map_sum id (map (f_gross \<circ> snd))
       (aggregate [sample ''PVR'' ''Pune'' ''S2'' 1 1 (Fin 1),
                   sample ''PVR'' ''Pune'' ''S3'' 1 1 (Fin 1),
                   sample ''PVR'' ''Pune'' ''S1'' 1 1 (Fin 10000000000000000)]) =
     Inr [Fin 10000000000000002]"
  by (simp add: summary_eval occ_1_1 occ_2_2 occ_3_3 rnd_eval rnd_at [where k = 1]
      rnd_at [where k = 53] add_mset_commute)

end
